theory Spec2Isabelle
  imports Main "HOL-Library.Word" "HOL-Library.Sublist"
begin

section \<open>JavaScript strings\<close>

text \<open>
  A JavaScript string is a sequence of 16-bit code units. The pattern of
  \<^verbatim>\<open>alerts.js\<close> has no \<^verbatim>\<open>u\<close> flag, so matching works on code units.
  \<open>js\<close> reads an ASCII literal of the source as such a sequence.
\<close>

type_synonym code_unit = "16 word"
type_synonym jsstring = "code_unit list"

definition js :: "string \<Rightarrow> jsstring" where
  "js s = map of_char s"

section \<open>Regular expressions: the constructs the pattern uses\<close>

text \<open>
  \<open>Chars\<close> is a run of literal pattern characters, \<open>CharClass neg as\<close> a bracket
  class (\<open>neg\<close> for a leading \<^verbatim>\<open>^\<close>), \<open>Group n\<close> the \<open>n\<close>-th capturing
  parenthesis, \<open>Star True\<close> the greedy \<^verbatim>\<open>*\<close> and \<open>Star False\<close> the lazy
  \<^verbatim>\<open>*?\<close>.
\<close>

datatype class_atom = ClassChar code_unit | ClassSpace

datatype rx =
    Chars jsstring
  | CharClass bool "class_atom list"
  | Seq rx rx
  | Alt rx rx
  | Group nat rx
  | Star bool rx

type_synonym caps = "jsstring option list"

text \<open>
  The class escape \<^verbatim>\<open>\s\<close>: the WhiteSpace and LineTerminator code points of
  ECMAScript (TAB, LF, VT, FF, CR, SP, NBSP, the space separators of Unicode,
  LS, PS and the byte order mark). U+180E is no space separator since
  Unicode 6.3 and is not in the class.
\<close>

definition is_white_space :: "code_unit \<Rightarrow> bool" where
  "is_white_space c \<longleftrightarrow>
     c \<in> set [0x09, 0x0A, 0x0B, 0x0C, 0x0D, 0x20, 0xA0, 0x1680, 0x2028, 0x2029,
              0x202F, 0x205F, 0x3000, 0xFEFF] \<or> (0x2000 \<le> c \<and> c \<le> 0x200A)"

fun atom_matches :: "class_atom \<Rightarrow> code_unit \<Rightarrow> bool" where
  "atom_matches (ClassChar d) c = (c = d)"
| "atom_matches ClassSpace c = is_white_space c"

definition class_matches :: "bool \<Rightarrow> class_atom list \<Rightarrow> code_unit \<Rightarrow> bool" where
  "class_matches neg as c = (list_ex (\<lambda>a. atom_matches a c) as \<noteq> neg)"

text \<open>
  The backtracking matcher. \<open>m r (s, c)\<close> lists, in the order in which
  backtracking tries them, the states in which \<open>r\<close> can end when it starts
  on the input \<open>s\<close> with the captures \<open>c\<close>: a state is the input still to be
  read and the captures. An alternation tries its left branch first, a greedy
  star one more iteration before stopping, a lazy star stopping first; an
  iteration that consumes nothing is refused, as in ECMAScript. (ECMAScript
  also clears, at each iteration, the captures of the groups inside the
  star; the pattern of \<^verbatim>\<open>alerts.js\<close> has no group inside a star.)
\<close>

function m :: "rx \<Rightarrow> jsstring \<times> caps \<Rightarrow> (jsstring \<times> caps) list" where
  "m (Chars p) (s, c) = (if prefix p s then [(drop (length p) s, c)] else [])"
| "m (CharClass neg as) (s, c) =
     (case s of [] \<Rightarrow> [] | x # xs \<Rightarrow> if class_matches neg as x then [(xs, c)] else [])"
| "m (Seq r1 r2) (s, c) = concat (map (m r2) (m r1 (s, c)))"
| "m (Alt r1 r2) (s, c) = m r1 (s, c) @ m r2 (s, c)"
| "m (Group n r) (s, c) =
     map (\<lambda>(s', c'). (s', c'[n := Some (take (length s - length s') s)])) (m r (s, c))"
| "m (Star greedy r) (s, c) =
     (let again = concat (map (\<lambda>(s', c').
                     if length s' < length s then m (Star greedy r) (s', c') else [])
                   (m r (s, c)))
      in if greedy then again @ [(s, c)] else (s, c) # again)"
  by pat_completeness auto
termination
  by (relation "inv_image (less_than <*lex*> less_than) (\<lambda>(r, (s, c)). (size r, length s))")
    auto

fun ngroups :: "rx \<Rightarrow> nat" where
  "ngroups (Chars p) = 0"
| "ngroups (CharClass neg as) = 0"
| "ngroups (Seq r1 r2) = ngroups r1 + ngroups r2"
| "ngroups (Alt r1 r2) = ngroups r1 + ngroups r2"
| "ngroups (Group n r) = Suc (ngroups r)"
| "ngroups (Star greedy r) = ngroups r"

text \<open>
  One match attempt at the start of \<open>s\<close>: the first state of the matcher
  wins. The result is the matched substring and the array of the match
  (entry 0 the matched substring, entry \<open>n\<close> the \<open>n\<close>-th capture, \<open>None\<close>
  for \<^verbatim>\<open>undefined\<close>).
\<close>

definition exec :: "rx \<Rightarrow> jsstring \<Rightarrow> (jsstring \<times> caps) option" where
  "exec r s =
     (case m r (s, replicate (Suc (ngroups r)) None) of
        [] \<Rightarrow> None
      | (s', c) # _ \<Rightarrow>
          (let matched = take (length s - length s') s
           in Some (matched, c[0 := Some matched])))"

datatype error = TypeError

text \<open>
  \<^verbatim>\<open>String.prototype.replace\<close> with a pattern that has the \<^verbatim>\<open>g\<close> flag and
  a function as replacement: the scan starts at index 0; where the pattern
  does not match, the code unit is copied and the scan moves one further;
  where it matches, the value of the function replaces the matched substring
  and the scan resumes at the end of the match (one further after an empty
  match). An exception of the function ends the call.
\<close>

function replace_global ::
  "rx \<Rightarrow> (caps \<Rightarrow> error + jsstring) \<Rightarrow> jsstring \<Rightarrow> error + jsstring" where
  "replace_global r f s =
     (case exec r s of
        None \<Rightarrow>
          (case s of
             [] \<Rightarrow> Inr []
           | x # xs \<Rightarrow> map_sum id ((#) x) (replace_global r f xs))
      | Some (matched, c) \<Rightarrow>
          (case f c of
             Inl e \<Rightarrow> Inl e
           | Inr rep \<Rightarrow>
               if matched = [] then
                 (case s of
                    [] \<Rightarrow> Inr rep
                  | x # xs \<Rightarrow> map_sum id (\<lambda>t. rep @ x # t) (replace_global r f xs))
               else map_sum id ((@) rep) (replace_global r f (drop (length matched) s))))"
  by pat_completeness auto
termination
proof (relation "measure (\<lambda>(r, f, s). length s)")
  show "wf (measure (\<lambda>(r, f, s). length s))" by simp
next
  fix r f s x xs
  assume "s = x # xs"
  then show "((r, f, xs), r, f, s) \<in> measure (\<lambda>(r, f, s). length s)" by simp
next
  fix r f s x xs
  assume "s = x # xs"
  then show "((r, f, xs), r, f, s) \<in> measure (\<lambda>(r, f, s). length s)" by simp
next
  fix r :: rx and f :: "caps \<Rightarrow> error + jsstring" and s :: jsstring
    and x2 :: "jsstring \<times> caps" and matched :: jsstring and c :: caps
  assume e: "exec r s = Some x2" and x: "(matched, c) = x2" and ne: "matched \<noteq> []"
  from e x ne have "s \<noteq> []"
    by (auto simp: exec_def Let_def split: list.splits prod.splits)
  with ne show "((r, f, drop (length matched) s), r, f, s) \<in> measure (\<lambda>(r, f, s). length s)"
    by (cases matched) auto
qed

text \<open>
  \<^verbatim>\<open>String.prototype.split\<close> with a string separator and no limit, and
  \<^verbatim>\<open>Array.prototype.join\<close> on an array of strings.
\<close>

function split_from :: "jsstring \<Rightarrow> jsstring \<Rightarrow> jsstring \<Rightarrow> jsstring list" where
  "split_from sep cur [] = [cur]"
| "split_from sep cur (x # xs) =
     (if sep \<noteq> [] \<and> prefix sep (x # xs)
      then cur # split_from sep [] (drop (length sep) (x # xs))
      else split_from sep (cur @ [x]) xs)"
  by pat_completeness auto
termination
  by (relation "measure (\<lambda>(sep, cur, s). length s)") (auto simp: neq_Nil_conv)

definition split :: "jsstring \<Rightarrow> jsstring \<Rightarrow> jsstring list" where
  "split s sep = (if sep = [] then map (\<lambda>x. [x]) s else split_from sep [] s)"

fun join :: "jsstring list \<Rightarrow> jsstring \<Rightarrow> jsstring" where
  "join [] sep = []"
| "join [x] sep = x"
| "join (x # y # ys) sep = x @ sep @ join (y # ys) sep"

section \<open>alerts.js\<close>

text \<open>
  \<^verbatim>\<open>const regex = /(<blockquote>[\n|\s]*<p>\[!)(NOTE|IMPORTANT|WARNING|TIP|CAUTION)\]([^]*?)<\/p>[\n|\s]*<\/blockquote>/gm;\<close>
  The class \<^verbatim>\<open>[\n|\s]\<close> holds the line feed, the character \<^verbatim>\<open>|\<close> and
  \<^verbatim>\<open>\s\<close>; \<^verbatim>\<open>[^]\<close> is any code unit. The flag \<^verbatim>\<open>m\<close> changes only
  \<^verbatim>\<open>^\<close> and \<^verbatim>\<open>$\<close>, which the pattern does not use; the flag \<^verbatim>\<open>g\<close> is
  the scan of \<open>replace_global\<close>.
\<close>

definition gap :: rx where
  "gap = Star True (CharClass False [ClassChar 0x0A, ClassChar 0x7C, ClassSpace])"

definition tags :: rx where
  "tags = Alt (Chars (js ''NOTE'')) (Alt (Chars (js ''IMPORTANT''))
         (Alt (Chars (js ''WARNING'')) (Alt (Chars (js ''TIP'')) (Chars (js ''CAUTION'')))))"

definition regex :: rx where
  "regex =
     Seq (Group 1 (Seq (Chars (js ''<blockquote>'')) (Seq gap (Chars (js ''<p>[!'')))))
    (Seq (Group 2 tags)
    (Seq (Chars (js '']''))
    (Seq (Group 3 (Star False (CharClass True [])))
    (Seq (Chars (js ''</p>''))
    (Seq gap (Chars (js ''</blockquote>'')))))))"

record alert =
  className :: jsstring
  ja :: jsstring

text \<open>
  The transformation rules. A property read on \<open>alertConfig\<close> is modelled
  for the keys the object defines itself; any other key reads as
  \<^verbatim>\<open>undefined\<close> (\<open>None\<close>). The properties inherited from
  \<^verbatim>\<open>Object.prototype\<close> are left out: the pattern captures none of their
  names.
\<close>

definition alertConfig :: "(jsstring \<times> alert) list" where
  \<open>alertConfig =
     [(js ''NOTE'',
         \<lparr>className = js ''is-info'',
          ja = js ''<ion-icon name="alert-circle-outline"></ion-icon> Note''\<rparr>),
      (js ''TIP'',
         \<lparr>className = js ''is-success'',
          ja = js ''<ion-icon name="leaf-outline"></ion-icon> Tip''\<rparr>),
      (js ''IMPORTANT'',
         \<lparr>className = js ''is-important'',
          ja = js ''<ion-icon name="hand-right-outline"></ion-icon> Important''\<rparr>),
      (js ''CAUTION'',
         \<lparr>className = js ''is-caution'',
          ja = js ''<ion-icon name="skull-outline"></ion-icon> Caution''\<rparr>),
      (js ''WARNING'',
         \<lparr>className = js ''is-warning'',
          ja = js ''<ion-icon name="warning-outline"></ion-icon> Warning''\<rparr>)]\<close>

definition arg :: "caps \<Rightarrow> nat \<Rightarrow> jsstring option" where
  "arg c i = (if i < length c then c ! i else None)"

text \<open>
  The function passed to \<^verbatim>\<open>replace\<close>, on its arguments \<^verbatim>\<open>p2\<close> and
  \<^verbatim>\<open>p3\<close> (it reads neither \<^verbatim>\<open>match\<close> nor the first capture). Reading a
  property of \<^verbatim>\<open>undefined\<close> throws a TypeError: \<^verbatim>\<open>alert.ja\<close> when the
  table has no entry for \<^verbatim>\<open>p2\<close>, \<^verbatim>\<open>p3.split\<close> when the third group
  took no part in the match.
\<close>

definition replacer :: "jsstring option \<Rightarrow> jsstring option \<Rightarrow> error + jsstring" where
  \<open>replacer p2 p3 =
     (case (case p2 of None \<Rightarrow> None | Some k \<Rightarrow> map_of alertConfig k) of
        None \<Rightarrow> Inl TypeError
      | Some alert \<Rightarrow>
          (let title = ja alert;
               className = className alert
           in case p3 of
                None \<Rightarrow> Inl TypeError
              | Some body \<Rightarrow>
                  (let content = split body (js ''<br>'');
                       content = (case content of
                                    [] \<Rightarrow> content
                                  | l # ls \<Rightarrow> if l = [] then ls else content);
                       p = js ''<p>'' @ join content (js ''</p><p>'') @ js ''</p>''
                   in Inr (js ''<div class="alert '' @ className
                           @ js ''"><p class="alert-title">'' @ title @ js ''</p>''
                           @ p @ js ''</div>''))))\<close>

definition transform :: "jsstring \<Rightarrow> error + jsstring" where
  "transform s = replace_global regex (\<lambda>c. replacer (arg c 2) (arg c 3)) s"

record document =
  content :: jsstring

text \<open>
  The filter registered for \<^verbatim>\<open>after_post_render\<close>: it assigns the new
  content to the document it was given and returns that document. The other
  fields of the document are the extension of the record.
\<close>

definition after_post_render :: "'a document_scheme \<Rightarrow> error + 'a document_scheme" where
  "after_post_render data =
     (case transform (content data) of
        Inl e \<Rightarrow> Inl e
      | Inr s \<Rightarrow> Inr (data\<lparr>content := s\<rparr>))"

section \<open>The pattern read as a scanner\<close>

text \<open>
  The notions below are not part of the source: they spell out, as plain
  list functions, what the backtracking matcher does on \<open>regex\<close>. The
  lemmas \<open>m_regex\<close> and \<open>exec_regex\<close> prove that they agree with the matcher,
  and every later statement about \<open>exec regex\<close> and \<open>transform\<close> rests on
  that agreement.
\<close>

text \<open>The class \<^verbatim>\<open>[\n|\s]\<close> as a predicate.\<close>

definition gap_char :: "code_unit \<Rightarrow> bool" where
  "gap_char c \<longleftrightarrow> c = 0x0A \<or> c = 0x7C \<or> is_white_space c"

definition any_lazy :: rx where
  "any_lazy = Star False (CharClass True [])"

definition first_opt :: "'a list \<Rightarrow> 'a option" where
  "first_opt xs = (case xs of [] \<Rightarrow> None | x # _ \<Rightarrow> Some x)"

text \<open>
  \<open>head_at s\<close>: the input behind \<^verbatim>\<open><blockquote>\<close>, a run of class
  characters and \<^verbatim>\<open><p>[!\<close>, when \<open>s\<close> starts so. \<open>close_at s\<close>: the input
  behind \<^verbatim>\<open></p>\<close>, a run of class characters and \<^verbatim>\<open></blockquote>\<close>.
\<close>

definition head_at :: "jsstring \<Rightarrow> jsstring option" where
  "head_at s =
     (if prefix (js ''<blockquote>'') s then
        (let s' = dropWhile gap_char (drop (length (js ''<blockquote>'')) s)
         in if prefix (js ''<p>[!'') s' then Some (drop (length (js ''<p>[!'')) s') else None)
      else None)"

definition close_at :: "jsstring \<Rightarrow> jsstring option" where
  "close_at s =
     (if prefix (js ''</p>'') s then
        (let s' = dropWhile gap_char (drop (length (js ''</p>'')) s)
         in if prefix (js ''</blockquote>'') s'
            then Some (drop (length (js ''</blockquote>'')) s') else None)
      else None)"

text \<open>
  \<open>find_close s\<close>: the shortest prefix of \<open>s\<close> behind which the closing
  sequence stands (the lazy \<^verbatim>\<open>[^]*?\<close>), with the input behind that closing
  sequence.
\<close>

fun find_close :: "jsstring \<Rightarrow> (jsstring \<times> jsstring) option" where
  "find_close [] = None"
| "find_close (x # xs) =
     (case close_at (x # xs) of
        Some r \<Rightarrow> Some ([], r)
      | None \<Rightarrow> map_option (\<lambda>(b, r). (x # b, r)) (find_close xs))"

text \<open>The alternatives of the second group, in the order of the pattern.\<close>

definition tag_names :: "jsstring list" where
  "tag_names = [js ''NOTE'', js ''IMPORTANT'', js ''WARNING'', js ''TIP'', js ''CAUTION'']"

definition tag_at :: "jsstring \<Rightarrow> jsstring option" where
  "tag_at s = find (\<lambda>t. prefix t s) tag_names"

text \<open>
  \<open>alert_match s\<close>: the tag, the body text and the input behind the match,
  when the pattern matches at the start of \<open>s\<close>.
\<close>

definition alert_match :: "jsstring \<Rightarrow> (jsstring \<times> jsstring \<times> jsstring) option" where
  "alert_match s =
     (case head_at s of
        None \<Rightarrow> None
      | Some s1 \<Rightarrow>
          (case tag_at s1 of
             None \<Rightarrow> None
           | Some t \<Rightarrow>
               if prefix (js '']'') (drop (length t) s1)
               then map_option (\<lambda>(body, rest). (t, body, rest))
                      (find_close (drop (Suc (length t)) s1))
               else None))"

text \<open>The literal alternatives of a pattern, for comparison with the table.\<close>

fun alternatives :: "rx \<Rightarrow> jsstring list" where
  "alternatives (Alt r1 r2) = alternatives r1 @ alternatives r2"
| "alternatives (Chars p) = [p]"
| "alternatives (CharClass neg as) = []"
| "alternatives (Seq r1 r2) = []"
| "alternatives (Group n r) = []"
| "alternatives (Star greedy r) = []"

text \<open>
  The scan of \<open>replace_global\<close> cuts the input into stretches in which no
  match starts and the matches between them. \<open>match_free u v\<close>: no match
  starts at a position of \<open>u\<close> when \<open>v\<close> follows it.
\<close>

fun match_free :: "jsstring \<Rightarrow> jsstring \<Rightarrow> bool" where
  "match_free [] v = True"
| "match_free (x # u) v = (exec regex (x # u @ v) = None \<and> match_free u v)"

text \<open>
  \<open>scanned s segs rest\<close>: from its start, \<open>s\<close> is cut by \<open>segs\<close> and ends
  with \<open>rest\<close>. Each entry \<open>(u, w, r)\<close> is a stretch \<open>u\<close> in which no match
  starts, the match \<open>w\<close> of the pattern right behind it, and the value \<open>r\<close>
  of the replacer on the captures of that match; the next entry starts
  behind \<open>w\<close>.
\<close>

fun scanned :: "jsstring \<Rightarrow> (jsstring \<times> jsstring \<times> jsstring) list \<Rightarrow> jsstring \<Rightarrow> bool" where
  "scanned s [] rest = (s = rest)"
| "scanned s ((u, w, r) # segs) rest =
     (prefix u s \<and> match_free u (drop (length u) s) \<and>
      (case exec regex (drop (length u) s) of
         None \<Rightarrow> False
       | Some (w', c) \<Rightarrow> w' = w \<and> replacer (arg c 2) (arg c 3) = Inr r) \<and>
      scanned (drop (length u + length w) s) segs rest)"

section \<open>The matcher on the pattern\<close>

declare m.simps(6) [simp del]

lemma class_gap: "class_matches False [ClassChar 0x0A, ClassChar 0x7C, ClassSpace] c = gap_char c"
  by (simp add: class_matches_def gap_char_def)

lemma class_any: "class_matches True [] c"
  by (simp add: class_matches_def)

lemma m_gap_Nil: "m gap ([], c) = [([], c)]"
  unfolding gap_def by (subst m.simps(6)) simp

lemma m_gap_Cons:
  "m gap (x # xs, c) = (if gap_char x then m gap (xs, c) @ [(x # xs, c)] else [(x # xs, c)])"
  unfolding gap_def by (subst m.simps(6)) (simp add: class_gap)

lemma m_gap_Chars:
  assumes "p \<noteq> []" and "\<not> gap_char (hd p)"
  shows "m (Seq gap (Chars p)) (s, c) =
    (if prefix p (dropWhile gap_char s) then [(drop (length p) (dropWhile gap_char s), c)] else [])"
proof (induction s)
  case Nil
  show ?case by (simp add: m_gap_Nil)
next
  case (Cons x xs)
  from assms obtain a as where p: "p = a # as" and a: "\<not> gap_char a"
    by (cases p) auto
  show ?case
  proof (cases "gap_char x")
    case True
    with a have "a \<noteq> x" by auto
    with True Cons show ?thesis by (simp add: m_gap_Cons p)
  next
    case False
    then show ?thesis by (simp add: m_gap_Cons)
  qed
qed

lemma m_any_Nil: "m any_lazy ([], c) = [([], c)]"
  unfolding any_lazy_def by (subst m.simps(6)) simp

lemma m_any_Cons: "m any_lazy (x # xs, c) = (x # xs, c) # m any_lazy (xs, c)"
  unfolding any_lazy_def by (subst m.simps(6)) (simp add: class_any)

lemma upt_Suc_Suc: "[0..<Suc (Suc n)] = 0 # map Suc [0..<Suc n]"
  by (simp only: map_Suc_upt) (simp add: upt_rec)

lemma m_any: "m any_lazy (s, c) = map (\<lambda>k. (drop k s, c)) [0..<Suc (length s)]"
proof (induction s)
  case Nil
  show ?case by (simp add: m_any_Nil)
next
  case (Cons x xs)
  show ?case
    by (simp only: length_Cons upt_Suc_Suc m_any_Cons Cons) (simp add: o_def del: upt_Suc)
qed

lemma m_Seq_Chars:
  "m (Seq (Chars p) r) (s, c) = (if prefix p s then m r (drop (length p) s, c) else [])"
  by simp

lemma not_gap_lt: "\<not> gap_char 0x3C"
  by (simp add: gap_char_def is_white_space_def)

lemma m_close:
  "m (Seq (Chars (js ''</p>'')) (Seq gap (Chars (js ''</blockquote>'')))) (s, c) =
     (case close_at s of None \<Rightarrow> [] | Some r \<Rightarrow> [(r, c)])"
proof -
  have "m (Seq gap (Chars (js ''</blockquote>''))) (s', c) =
      (if prefix (js ''</blockquote>'') (dropWhile gap_char s')
       then [(drop (length (js ''</blockquote>'')) (dropWhile gap_char s'), c)] else [])" for s'
    by (rule m_gap_Chars) (simp_all add: js_def not_gap_lt)
  then show ?thesis
    by (simp only: m_Seq_Chars close_at_def Let_def) simp
qed

lemma first_opt_simps [simp]:
  "first_opt [] = None" "first_opt (x # xs) = Some x"
  "first_opt (ys @ zs) = (case first_opt ys of None \<Rightarrow> first_opt zs | Some y \<Rightarrow> Some y)"
  by (simp_all add: first_opt_def split: list.splits)

lemma close_at_Nil [simp]: "close_at [] = None"
  by (simp add: close_at_def js_def)

lemma first_close:
  "first_opt (concat (map (\<lambda>k. case close_at (drop k s) of None \<Rightarrow> []
                                 | Some r \<Rightarrow> [(r, H (take k s))]) [0..<Suc (length s)]))
   = map_option (\<lambda>(b, r). (r, H b)) (find_close s)"
proof (induction s arbitrary: H)
  case Nil
  show ?case by simp
next
  case (Cons x xs)
  show ?case
    by (simp only: length_Cons upt_Suc_Suc)
       (simp add: o_def Cons [of "\<lambda>b. H (x # b)"] option.map_comp case_prod_unfold
             del: upt_Suc cong: option.case_cong split: option.splits)
qed

lemma m_body:
  "m (Group 3 (Star False (CharClass True []))) (s, c) =
     map (\<lambda>k. (drop k s, c[3 := Some (take k s)])) [0..<Suc (length s)]"
proof -
  have "m (Group 3 any_lazy) (s, c) =
     map (\<lambda>k. (drop k s, c[3 := Some (take k s)])) [0..<Suc (length s)]"
    by (simp add: m_any o_def del: upt_Suc)
  then show ?thesis by (simp only: any_lazy_def)
qed

lemma m_head:
  "m (Seq (Chars (js ''<blockquote>'')) (Seq gap (Chars (js ''<p>[!'')))) (s, c) =
     (case head_at s of None \<Rightarrow> [] | Some r \<Rightarrow> [(r, c)])"
proof -
  have "m (Seq gap (Chars (js ''<p>[!''))) (s', c) =
      (if prefix (js ''<p>[!'') (dropWhile gap_char s')
       then [(drop (length (js ''<p>[!'')) (dropWhile gap_char s'), c)] else [])" for s'
    by (rule m_gap_Chars) (simp_all add: js_def not_gap_lt)
  then show ?thesis
    by (simp only: m_Seq_Chars head_at_def Let_def) simp
qed

lemma m_Group_Chars:
  "m (Group n (Chars p)) (s, c) = (if prefix p s then [(drop (length p) s, c[n := Some p])] else [])"
  by (auto simp: prefix_def)

lemma m_Group_Alt: "m (Group n (Alt r1 r2)) st = m (Group n r1) st @ m (Group n r2) st"
  by (cases st) simp

lemma m_tags:
  "m (Group 2 tags) (s, c) =
     (case tag_at s of None \<Rightarrow> [] | Some t \<Rightarrow> [(drop (length t) s, c[2 := Some t])])"
proof (cases s)
  case Nil
  then show ?thesis
    by (simp only: tags_def m_Group_Alt m_Group_Chars tag_at_def tag_names_def)
       (simp add: js_def)
next
  case (Cons x xs)
  then show ?thesis
    by (simp only: tags_def m_Group_Alt m_Group_Chars tag_at_def tag_names_def)
       (auto simp: js_def)
qed

lemma ngroups_regex: "ngroups regex = 3"
  by (simp add: regex_def tags_def gap_def)

lemma m_regex:
  "first_opt (m regex (s, c)) =
     (case head_at s of
        None \<Rightarrow> None
      | Some s1 \<Rightarrow>
          (case tag_at s1 of
             None \<Rightarrow> None
           | Some t \<Rightarrow>
               if prefix (js '']'') (drop (length t) s1)
               then map_option
                      (\<lambda>(body, rest).
                         (rest, c[1 := Some (take (length s - length s1) s),
                                  2 := Some t, 3 := Some body]))
                      (find_close (drop (Suc (length t)) s1))
               else None))"
proof -
  have body: "first_opt (m (Seq (Group 3 (Star False (CharClass True [])))
                  (Seq (Chars (js ''</p>'')) (Seq gap (Chars (js ''</blockquote>''))))) (s', c'))
      = map_option (\<lambda>(b, r). (r, c'[3 := Some b])) (find_close s')" for s' c'
    unfolding m.simps(3) [of "Group 3 (Star False (CharClass True []))"] m_body
    using first_close [where s = s' and H = "\<lambda>b. c'[3 := Some b]"]
    by (simp only: map_map o_def m_close)
  have len1: "length (js '']'') = 1" by (simp add: js_def)
  let ?H = "Seq (Chars (js ''<blockquote>'')) (Seq gap (Chars (js ''<p>[!'')))"
  let ?R4 = "Seq (Group 3 (Star False (CharClass True [])))
              (Seq (Chars (js ''</p>'')) (Seq gap (Chars (js ''</blockquote>''))))"
  let ?R3 = "Seq (Chars (js '']'')) ?R4"
  let ?R2 = "Seq (Group 2 tags) ?R3"
  have g1: "m (Group 1 ?H) (s, c) =
      (case head_at s of None \<Rightarrow> []
       | Some s1 \<Rightarrow> [(s1, c[1 := Some (take (length s - length s1) s)])])"
    by (simp only: m.simps(5) m_head) (simp split: option.splits)
  have r3: "m ?R3 (s', c') =
      (if prefix (js '']'') s' then m ?R4 (drop (Suc 0) s', c') else [])" for s' c'
    by (simp only: m_Seq_Chars len1) simp
  have r2: "m ?R2 (s', c') =
      (case tag_at s' of None \<Rightarrow> []
       | Some t \<Rightarrow> m ?R3 (drop (length t) s', c'[2 := Some t]))" for s' c'
    by (simp only: m.simps(3) [of "Group 2 tags"] m_tags) (simp split: option.splits)
  have "m regex (s, c) = (case head_at s of None \<Rightarrow> []
       | Some s1 \<Rightarrow> m ?R2 (s1, c[1 := Some (take (length s - length s1) s)]))"
    unfolding regex_def
    by (simp only: m.simps(3) [of "Group 1 ?H"] g1) (simp split: option.splits)
  then show ?thesis
    by (simp only: r2 r3) (simp add: body del: m.simps split: option.splits)
qed

declare replace_global.simps [simp del]

lemma exec_first:
  "exec r s = map_option (\<lambda>(s', c). (take (length s - length s') s,
                                       c[0 := Some (take (length s - length s') s)]))
                (first_opt (m r (s, replicate (Suc (ngroups r)) None)))"
  by (simp add: exec_def first_opt_def Let_def split: list.splits)

lemma exec_regex:
  "exec regex s =
     (case alert_match s of
        None \<Rightarrow> None
      | Some (t, body, rest) \<Rightarrow>
          Some (take (length s - length rest) s,
                [Some (take (length s - length rest) s),
                 Some (take (length s - length (the (head_at s))) s),
                 Some t, Some body]))"
  by (simp only: exec_first m_regex ngroups_regex alert_match_def)
     (simp add: numeral_3_eq_3 numeral_2_eq_2 split: option.splits)

lemma head_at_sound:
  assumes "head_at s = Some s1"
  shows "\<exists>g. s = js ''<blockquote>'' @ g @ js ''<p>[!'' @ s1 \<and> (\<forall>c\<in>set g. gap_char c)"
proof -
  let ?s0 = "drop (length (js ''<blockquote>'')) s"
  from assms have p: "prefix (js ''<blockquote>'') s"
    and q: "prefix (js ''<p>[!'') (dropWhile gap_char ?s0)"
    and r: "s1 = drop (length (js ''<p>[!'')) (dropWhile gap_char ?s0)"
    by (auto simp: head_at_def Let_def split: if_splits)
  from p have "s = js ''<blockquote>'' @ ?s0" by (auto simp: prefix_def)
  moreover have "?s0 = takeWhile gap_char ?s0 @ dropWhile gap_char ?s0" by simp
  moreover from q r have "dropWhile gap_char ?s0 = js ''<p>[!'' @ s1" by (auto simp: prefix_def)
  moreover have "\<forall>c\<in>set (takeWhile gap_char ?s0). gap_char c" by (auto dest: set_takeWhileD)
  ultimately show ?thesis by metis
qed

lemma close_at_sound:
  assumes "close_at s = Some r"
  shows "\<exists>g. s = js ''</p>'' @ g @ js ''</blockquote>'' @ r \<and> (\<forall>c\<in>set g. gap_char c)"
proof -
  let ?s0 = "drop (length (js ''</p>'')) s"
  from assms have p: "prefix (js ''</p>'') s"
    and q: "prefix (js ''</blockquote>'') (dropWhile gap_char ?s0)"
    and r: "r = drop (length (js ''</blockquote>'')) (dropWhile gap_char ?s0)"
    by (auto simp: close_at_def Let_def split: if_splits)
  from p have "s = js ''</p>'' @ ?s0" by (auto simp: prefix_def)
  moreover have "?s0 = takeWhile gap_char ?s0 @ dropWhile gap_char ?s0" by simp
  moreover from q r have "dropWhile gap_char ?s0 = js ''</blockquote>'' @ r"
    by (auto simp: prefix_def)
  moreover have "\<forall>c\<in>set (takeWhile gap_char ?s0). gap_char c" by (auto dest: set_takeWhileD)
  ultimately show ?thesis by metis
qed

lemma find_close_sound:
  "find_close s = Some (body, rest) \<Longrightarrow>
     \<exists>s'. s = body @ s' \<and> close_at s' = Some rest \<and>
          (\<forall>k<length body. close_at (drop k s) = None)"
proof (induction s arbitrary: body)
  case Nil
  then show ?case by simp
next
  case (Cons x xs)
  show ?case
  proof (cases "close_at (x # xs)")
    case (Some r)
    with Cons.prems show ?thesis by auto
  next
    case None
    with Cons.prems obtain b where b: "find_close xs = Some (b, rest)" and body: "body = x # b"
      by auto
    from Cons.IH [OF b] obtain s' where s': "xs = b @ s'" "close_at s' = Some rest"
      and no: "\<forall>k<length b. close_at (drop k xs) = None" by blast
    have "close_at (drop k (x # xs)) = None" if "k < length body" for k
      using that None no body by (cases k) auto
    with s' body show ?thesis by auto
  qed
qed

lemma tag_at_sound: "tag_at s = Some t \<Longrightarrow> t \<in> set tag_names \<and> prefix t s"
  by (auto simp: tag_at_def find_Some_iff)

lemma alert_match_sound:
  assumes "alert_match s = Some (t, body, rest)"
  shows "\<exists>g1 g2. s = js ''<blockquote>'' @ g1 @ js ''<p>[!'' @ t @ js '']'' @ body
                    @ js ''</p>'' @ g2 @ js ''</blockquote>'' @ rest
           \<and> (\<forall>c\<in>set g1. gap_char c) \<and> (\<forall>c\<in>set g2. gap_char c) \<and> t \<in> set tag_names"
proof -
  from assms obtain s1 where h: "head_at s = Some s1"
    and t: "tag_at s1 = Some t"
    and b: "prefix (js '']'') (drop (length t) s1)"
    and f: "find_close (drop (Suc (length t)) s1) = Some (body, rest)"
    by (auto simp: alert_match_def split: option.splits if_splits)
  from head_at_sound [OF h] obtain g1 where
    g1: "s = js ''<blockquote>'' @ g1 @ js ''<p>[!'' @ s1" "\<forall>c\<in>set g1. gap_char c" by blast
  from tag_at_sound [OF t] have tn: "t \<in> set tag_names" and "prefix t s1" by auto
  then obtain s2 where s2: "s1 = t @ s2" by (auto simp: prefix_def)
  with b obtain s3 where s3: "s2 = js '']'' @ s3" by (auto simp: prefix_def)
  from s2 s3 have "drop (Suc (length t)) s1 = s3" by (simp add: js_def)
  with find_close_sound [of "drop (Suc (length t)) s1" body rest] f obtain s4 where
    s4: "s3 = body @ s4" "close_at s4 = Some rest" by blast
  from close_at_sound [OF s4(2)] obtain g2 where
    g2: "s4 = js ''</p>'' @ g2 @ js ''</blockquote>'' @ rest" "\<forall>c\<in>set g2. gap_char c" by blast
  have "s = js ''<blockquote>'' @ g1 @ js ''<p>[!'' @ t @ js '']'' @ body
                    @ js ''</p>'' @ g2 @ js ''</blockquote>'' @ rest"
    by (simp only: g1(1) s2 s3 s4(1) g2(1))
  with g1(2) g2(2) tn show ?thesis by blast
qed

lemma alert_match_suffix:
  assumes "alert_match s = Some (t, body, rest)"
  shows "\<exists>w. w \<noteq> [] \<and> s = w @ rest"
proof -
  from alert_match_sound [OF assms] obtain g1 g2 where
    s: "s = js ''<blockquote>'' @ g1 @ js ''<p>[!'' @ t @ js '']'' @ body
                    @ js ''</p>'' @ g2 @ js ''</blockquote>'' @ rest" by blast
  let ?w = "js ''<blockquote>'' @ g1 @ js ''<p>[!'' @ t @ js '']'' @ body
                    @ js ''</p>'' @ g2 @ js ''</blockquote>''"
  have "?w \<noteq> []" by (simp add: js_def)
  moreover have "s = ?w @ rest" by (simp only: s append_assoc)
  ultimately show ?thesis by (rule_tac x = ?w in exI) (rule conjI)
qed

lemma transform_unfold:
  "transform s =
     (case alert_match s of
        None \<Rightarrow>
          (case s of
             [] \<Rightarrow> Inr []
           | x # xs \<Rightarrow> map_sum id ((#) x) (transform xs))
      | Some (t, body, rest) \<Rightarrow>
          (case replacer (Some t) (Some body) of
             Inl e \<Rightarrow> Inl e
           | Inr rep \<Rightarrow> map_sum id ((@) rep) (transform rest)))"
proof (cases "alert_match s")
  case None
  then show ?thesis
    unfolding transform_def
    by (subst replace_global.simps) (simp add: exec_regex)
next
  case (Some a)
  then obtain t body rest where a: "alert_match s = Some (t, body, rest)"
    by (cases a) auto
  from alert_match_suffix [OF a] obtain w where w: "w \<noteq> []" "s = w @ rest" by blast
  then have tk: "take (length s - length rest) s = w" by simp
  have dr: "drop (length w) s = rest" using w by simp
  obtain h where e: "exec regex s = Some (w, [Some w, h, Some t, Some body])"
    by (simp add: exec_regex a tk)
  have ar: "arg [Some w, h, Some t, Some body] 2 = Some t"
    "arg [Some w, h, Some t, Some body] 3 = Some body"
    by (simp_all add: arg_def)
  show ?thesis
    unfolding transform_def
    by (subst replace_global.simps) (simp add: e a ar w(1) dr split: sum.splits)
qed

lemma exec_regex_None_iff: "exec regex s = None \<longleftrightarrow> alert_match s = None"
  by (simp add: exec_regex split: option.splits)

lemma map_of_tag_names:
  "t \<in> set tag_names \<Longrightarrow> \<exists>a. map_of alertConfig t = Some a"
  by (auto simp: tag_names_def alertConfig_def js_def)

lemma replacer_tag:
  "map_of alertConfig t = Some a \<Longrightarrow> \<exists>rep. replacer (Some t) (Some body) = Inr rep"
  by (simp add: replacer_def Let_def)

lemma transform_total: "\<exists>out. transform s = Inr out"
proof (induction s rule: length_induct)
  case (1 s)
  show ?case
  proof (cases "alert_match s")
    case None
    show ?thesis
    proof (cases s)
      case Nil
      with None show ?thesis by (subst transform_unfold) simp
    next
      case (Cons x xs)
      with 1 obtain out where "transform xs = Inr out" by auto
      with None Cons show ?thesis by (subst transform_unfold) simp
    qed
  next
    case (Some a)
    then obtain t body rest where a: "alert_match s = Some (t, body, rest)"
      by (cases a) auto
    from alert_match_suffix [OF a] have "length rest < length s" by auto
    with 1 obtain out where out: "transform rest = Inr out" by auto
    from alert_match_sound [OF a] have "t \<in> set tag_names" by blast
    then obtain rep where "replacer (Some t) (Some body) = Inr rep"
      using map_of_tag_names replacer_tag by blast
    with a out show ?thesis by (subst transform_unfold) simp
  qed
qed

lemma transform_copy:
  "(\<forall>i<length u. alert_match (drop i u @ v) = None) \<Longrightarrow> transform v = Inr out \<Longrightarrow>
     transform (u @ v) = Inr (u @ out)"
proof (induction u)
  case Nil
  then show ?case by simp
next
  case (Cons x u)
  from Cons.prems have "alert_match ((x # u) @ v) = None" by force
  moreover from Cons.prems have "\<forall>i<length u. alert_match (drop i u @ v) = None" by force
  ultimately show ?case
    using Cons.prems(2) by (subst transform_unfold) (simp add: Cons.IH)
qed

lemma transform_match:
  assumes "alert_match s = Some (t, body, rest)"
  shows "\<exists>rep out. replacer (Some t) (Some body) = Inr rep \<and> transform rest = Inr out
           \<and> transform s = Inr (rep @ out)"
proof -
  from alert_match_sound [OF assms] have "t \<in> set tag_names" by blast
  then obtain rep where rep: "replacer (Some t) (Some body) = Inr rep"
    using map_of_tag_names replacer_tag by blast
  obtain out where out: "transform rest = Inr out" using transform_total by blast
  from assms rep out have "transform s = Inr (rep @ out)"
    by (subst transform_unfold) simp
  with rep out show ?thesis by blast
qed

lemma dropWhile_gap:
  assumes "\<forall>c\<in>set g. gap_char c" and "q \<noteq> []" and "\<not> gap_char (hd q)"
  shows "dropWhile gap_char (g @ q @ r) = q @ r"
proof -
  from assms obtain a as where "q = a # as" "\<not> gap_char a" by (cases q) auto
  with assms(1) show ?thesis by (simp add: dropWhile_append3)
qed

lemma head_at_complete:
  assumes "\<forall>c\<in>set g. gap_char c"
  shows "head_at (js ''<blockquote>'' @ g @ js ''<p>[!'' @ r) = Some r"
proof -
  have "dropWhile gap_char (g @ js ''<p>[!'' @ r) = js ''<p>[!'' @ r"
    by (rule dropWhile_gap [OF assms]) (simp_all add: js_def not_gap_lt)
  then show ?thesis by (simp add: head_at_def)
qed

lemma close_at_complete:
  assumes "\<forall>c\<in>set g. gap_char c"
  shows "close_at (js ''</p>'' @ g @ js ''</blockquote>'' @ r) = Some r"
proof -
  have "dropWhile gap_char (g @ js ''</blockquote>'' @ r) = js ''</blockquote>'' @ r"
    by (rule dropWhile_gap [OF assms]) (simp_all add: js_def not_gap_lt)
  then show ?thesis by (simp add: close_at_def)
qed

lemma find_close_complete:
  "(\<forall>k<length body. close_at (drop k body @ s') = None) \<Longrightarrow> close_at s' = Some rest \<Longrightarrow>
     find_close (body @ s') = Some (body, rest)"
proof (induction body)
  case Nil
  then show ?case by (cases s') auto
next
  case (Cons x body)
  from Cons.prems(1) have "close_at (x # body @ s') = None" by force
  moreover from Cons.prems(1) have "\<forall>k<length body. close_at (drop k body @ s') = None" by force
  ultimately show ?case using Cons.IH Cons.prems(2) by simp
qed

lemma find_close_exists:
  "close_at s' = Some rest \<Longrightarrow> \<exists>b r. find_close (body @ s') = Some (b, r)"
proof (induction body)
  case Nil
  then show ?case by (cases s') auto
next
  case (Cons x body)
  then show ?case by (cases "close_at (x # body @ s')") auto
qed

lemma tag_at_complete:
  assumes "t \<in> set tag_names"
  shows "tag_at (t @ r) = Some t"
proof -
  have "tag_at (js ''NOTE'' @ r) = Some (js ''NOTE'')"
    "tag_at (js ''IMPORTANT'' @ r) = Some (js ''IMPORTANT'')"
    "tag_at (js ''WARNING'' @ r) = Some (js ''WARNING'')"
    "tag_at (js ''TIP'' @ r) = Some (js ''TIP'')"
    "tag_at (js ''CAUTION'' @ r) = Some (js ''CAUTION'')"
    by (simp_all add: tag_at_def tag_names_def js_def)
  with assms show ?thesis by (auto simp: tag_names_def)
qed

lemma alert_match_complete:
  assumes t: "t \<in> set tag_names"
    and g1: "\<forall>c\<in>set g1. gap_char c" and g2: "\<forall>c\<in>set g2. gap_char c"
    and body: "\<forall>k<length body.
                 close_at (drop k body @ js ''</p>'' @ g2 @ js ''</blockquote>'' @ rest) = None"
  shows "alert_match (js ''<blockquote>'' @ g1 @ js ''<p>[!'' @ t @ js '']'' @ body
                      @ js ''</p>'' @ g2 @ js ''</blockquote>'' @ rest) = Some (t, body, rest)"
proof -
  let ?s3 = "body @ js ''</p>'' @ g2 @ js ''</blockquote>'' @ rest"
  let ?s1 = "t @ js '']'' @ ?s3"
  have h: "head_at (js ''<blockquote>'' @ g1 @ js ''<p>[!'' @ ?s1) = Some ?s1"
    by (rule head_at_complete [OF g1])
  have ta: "tag_at ?s1 = Some t" by (rule tag_at_complete [OF t])
  have br: "prefix (js '']'') (drop (length t) ?s1)" by simp
  have dr: "drop (Suc (length t)) ?s1 = ?s3" by (simp add: js_def)
  have "find_close ?s3 = Some (body, rest)"
    using body close_at_complete [OF g2] by (rule find_close_complete)
  with h ta br dr show ?thesis
    by (simp only: alert_match_def option.case if_True option.map case_prod_conv)
qed

lemma alert_match_exists:
  assumes t: "t \<in> set tag_names"
    and g1: "\<forall>c\<in>set g1. gap_char c" and g2: "\<forall>c\<in>set g2. gap_char c"
  shows "alert_match (js ''<blockquote>'' @ g1 @ js ''<p>[!'' @ t @ js '']'' @ body
                      @ js ''</p>'' @ g2 @ js ''</blockquote>'' @ rest) \<noteq> None"
proof -
  let ?s3 = "body @ js ''</p>'' @ g2 @ js ''</blockquote>'' @ rest"
  let ?s1 = "t @ js '']'' @ ?s3"
  have h: "head_at (js ''<blockquote>'' @ g1 @ js ''<p>[!'' @ ?s1) = Some ?s1"
    by (rule head_at_complete [OF g1])
  have ta: "tag_at ?s1 = Some t" by (rule tag_at_complete [OF t])
  have br: "prefix (js '']'') (drop (length t) ?s1)" by simp
  have dr: "drop (Suc (length t)) ?s1 = ?s3" by (simp add: js_def)
  obtain b r where "find_close ?s3 = Some (b, r)"
    using find_close_exists [OF close_at_complete [OF g2]] by blast
  with h ta br dr show ?thesis
    by (simp only: alert_match_def option.case if_True option.map case_prod_conv) simp
qed

lemma no_prefix_straddle:
  assumes "d \<noteq> []" and "\<not> prefix (js ''</p>'') d"
  shows "\<not> prefix (js ''</p>'') (d @ js ''</p>'' @ r)"
proof (cases d)
  case Nil
  with assms show ?thesis by simp
next
  case d1: (Cons a d1)
  show ?thesis
  proof (cases d1)
    case Nil
    with d1 show ?thesis by (simp add: js_def)
  next
    case d2: (Cons b d2)
    show ?thesis
    proof (cases d2)
      case Nil
      with d1 d2 show ?thesis by (simp add: js_def)
    next
      case d3: (Cons c d3)
      show ?thesis
      proof (cases d3)
        case Nil
        with d1 d2 d3 show ?thesis by (simp add: js_def)
      next
        case (Cons e d4)
        with d1 d2 d3 assms(2) show ?thesis by (simp add: js_def)
      qed
    qed
  qed
qed

lemma no_close_inside:
  assumes "\<not> sublist (js ''</p>'') body" and "k < length body"
  shows "close_at (drop k body @ js ''</p>'' @ r) = None"
proof -
  have "\<not> prefix (js ''</p>'') (drop k body)"
  proof
    assume "prefix (js ''</p>'') (drop k body)"
    then obtain zs where "drop k body = js ''</p>'' @ zs" by (auto simp: prefix_def)
    then have "body = take k body @ js ''</p>'' @ zs" by (metis append_take_drop_id)
    with assms(1) show False by (auto simp: sublist_def)
  qed
  moreover from assms(2) have "drop k body \<noteq> []" by simp
  ultimately have "\<not> prefix (js ''</p>'') (drop k body @ js ''</p>'' @ r)"
    by (rule no_prefix_straddle [rotated])
  then show ?thesis by (simp add: close_at_def)
qed


lemma transform_Nil: "transform [] = Inr []"
  by (subst transform_unfold) (simp add: alert_match_def head_at_def js_def)

lemma exec_regex_Some:
  assumes "exec regex s = Some (matched, c)"
  shows "\<exists>t body rest h. alert_match s = Some (t, body, rest) \<and> s = matched @ rest
           \<and> matched \<noteq> [] \<and> c = [Some matched, h, Some t, Some body]"
proof -
  from assms obtain t body rest where a: "alert_match s = Some (t, body, rest)"
    by (auto simp: exec_regex split: option.splits)
  from alert_match_suffix [OF a] obtain w where w: "w \<noteq> []" "s = w @ rest" by blast
  then have tk: "take (length s - length rest) s = w" by simp
  from assms a tk have "matched = w \<and>
    c = [Some w, Some (take (length s - length (the (head_at s))) s), Some t, Some body]"
    by (auto simp: exec_regex)
  with a w show ?thesis by blast
qed

lemmas scan_simps = alert_match_def head_at_def close_at_def tag_at_def tag_names_def js_def
  gap_char_def is_white_space_def replacer_def alertConfig_def split_def Let_def

section \<open>Lines and paragraphs, segments without a match\<close>

lemma split_from_not_Nil: "split_from sep cur s \<noteq> []"
  by (induction sep cur s rule: split_from.induct) auto

lemma split_not_Nil: "sep \<noteq> [] \<Longrightarrow> split s sep \<noteq> []"
  by (simp add: split_def split_from_not_Nil)

lemma split_sep_first: "sep \<noteq> [] \<Longrightarrow> split (sep @ r) sep = [] # split r sep"
  by (cases sep) (simp_all add: split_def)

lemma join_paragraphs:
  "ls \<noteq> [] \<Longrightarrow> js ''<p>'' @ join ls (js ''</p><p>'') @ js ''</p>''
     = concat (map (\<lambda>l. js ''<p>'' @ l @ js ''</p>'') ls)"
proof (induction ls)
  case Nil
  then show ?case by simp
next
  case (Cons x xs)
  show ?case
  proof (cases xs)
    case Nil
    then show ?thesis by simp
  next
    case (Cons y ys)
    with Cons.IH have "js ''<p>'' @ join (y # ys) (js ''</p><p>'') @ js ''</p>''
        = concat (map (\<lambda>l. js ''<p>'' @ l @ js ''</p>'') (y # ys))" by simp
    moreover have "js ''</p><p>'' = js ''</p>'' @ js ''<p>''" by (simp add: js_def)
    ultimately show ?thesis using Cons by simp
  qed
qed

lemma replacer_leading_break:
  assumes "map_of alertConfig t = Some a"
  shows \<open>replacer (Some t) (Some (js ''<br>'' @ r)) =
    Inr (js ''<div class="alert '' @ className a @ js ''"><p class="alert-title">'' @ ja a
         @ js ''</p>''
         @ concat (map (\<lambda>l. js ''<p>'' @ l @ js ''</p>'') (split r (js ''<br>'')))
         @ js ''</div>'')\<close>
proof -
  have ne: "js ''<br>'' \<noteq> []" by (simp add: js_def)
  have sp: "split (js ''<br>'' @ r) (js ''<br>'') = [] # split r (js ''<br>'')"
    by (rule split_sep_first [OF ne])
  have "split r (js ''<br>'') \<noteq> []" by (rule split_not_Nil [OF ne])
  from join_paragraphs [OF this] show ?thesis
    by (simp add: replacer_def assms sp)
qed

lemma tl_suffixes_Cons: "tl (suffixes (x # xs)) = tl (suffixes xs) @ [x # xs]"
  by (cases "suffixes xs") (simp_all add: suffixes_not_Nil)

lemma all_drop_suffixes:
  "list_all (\<lambda>t. P (t @ v)) (tl (suffixes u)) \<Longrightarrow> \<forall>i<length u. P (drop i (u @ v))"
proof (induction u)
  case Nil
  show ?case by simp
next
  case (Cons x u)
  from Cons.prems have a: "P ((x # u) @ v)" and b: "list_all (\<lambda>t. P (t @ v)) (tl (suffixes u))"
    by (simp_all add: tl_suffixes_Cons)
  show ?case
  proof (intro allI impI)
    fix i assume "i < length (x # u)"
    with a Cons.IH [OF b] show "P (drop i ((x # u) @ v))" by (cases i) auto
  qed
qed

lemma white_space_gap: "is_white_space c \<Longrightarrow> gap_char c"
  by (simp add: gap_char_def)

lemma tag_names_set:
  "set tag_names = {js ''NOTE'', js ''TIP'', js ''IMPORTANT'', js ''CAUTION'', js ''WARNING''}"
  by (auto simp: tag_names_def)






lemma close_at_extend:
  assumes "close_at x = Some y"
  shows "close_at (x @ r) = Some (y @ r)"
proof -
  from close_at_sound [OF assms] obtain g where
    x: "x = js ''</p>'' @ g @ js ''</blockquote>'' @ y" and g: "\<forall>c\<in>set g. gap_char c" by blast
  from close_at_complete [OF g, of "y @ r"] x show ?thesis by simp
qed

lemma alert_match_sound_strong:
  assumes "alert_match s = Some (t, body, rest)"
  shows "\<exists>g1 g2. s = js ''<blockquote>'' @ g1 @ js ''<p>[!'' @ t @ js '']'' @ body
                    @ js ''</p>'' @ g2 @ js ''</blockquote>'' @ rest
           \<and> (\<forall>c\<in>set g1. gap_char c) \<and> (\<forall>c\<in>set g2. gap_char c) \<and> t \<in> set tag_names
           \<and> (\<forall>k<length body.
                 close_at (drop k body @ js ''</p>'' @ g2 @ js ''</blockquote>'' @ rest) = None)"
proof -
  from assms obtain s1 where h: "head_at s = Some s1"
    and t: "tag_at s1 = Some t"
    and b: "prefix (js '']'') (drop (length t) s1)"
    and f: "find_close (drop (Suc (length t)) s1) = Some (body, rest)"
    by (auto simp: alert_match_def split: option.splits if_splits)
  from head_at_sound [OF h] obtain g1 where
    g1: "s = js ''<blockquote>'' @ g1 @ js ''<p>[!'' @ s1" "\<forall>c\<in>set g1. gap_char c" by blast
  from tag_at_sound [OF t] have tn: "t \<in> set tag_names" and "prefix t s1" by auto
  then obtain s2 where s2: "s1 = t @ s2" by (auto simp: prefix_def)
  with b obtain s3 where s3: "s2 = js '']'' @ s3" by (auto simp: prefix_def)
  from s2 s3 have "drop (Suc (length t)) s1 = s3" by (simp add: js_def)
  with find_close_sound [of "drop (Suc (length t)) s1" body rest] f obtain s4 where
    s4: "s3 = body @ s4" "close_at s4 = Some rest"
    and no: "\<forall>k<length body. close_at (drop k s3) = None" by blast
  from close_at_sound [OF s4(2)] obtain g2 where
    g2: "s4 = js ''</p>'' @ g2 @ js ''</blockquote>'' @ rest" "\<forall>c\<in>set g2. gap_char c" by blast
  have "s = js ''<blockquote>'' @ g1 @ js ''<p>[!'' @ t @ js '']'' @ body
                    @ js ''</p>'' @ g2 @ js ''</blockquote>'' @ rest"
    by (simp only: g1(1) s2 s3 s4(1) g2(1))
  moreover from no s4(1) g2(1) have "\<forall>k<length body.
      close_at (drop k body @ js ''</p>'' @ g2 @ js ''</blockquote>'' @ rest) = None"
    by simp
  ultimately show ?thesis using g1(2) g2(2) tn by blast
qed

lemma alert_match_matched:
  assumes "alert_match s = Some (t, body, rest)"
  shows "\<exists>w. s = w @ rest \<and> w \<noteq> [] \<and> alert_match w = Some (t, body, [])"
proof -
  from alert_match_sound_strong [OF assms] obtain g1 g2 where
    s: "s = js ''<blockquote>'' @ g1 @ js ''<p>[!'' @ t @ js '']'' @ body
                    @ js ''</p>'' @ g2 @ js ''</blockquote>'' @ rest"
    and g: "\<forall>c\<in>set g1. gap_char c" "\<forall>c\<in>set g2. gap_char c" and t: "t \<in> set tag_names"
    and no: "\<forall>k<length body.
                 close_at (drop k body @ js ''</p>'' @ g2 @ js ''</blockquote>'' @ rest) = None"
    by blast
  let ?w = "js ''<blockquote>'' @ g1 @ js ''<p>[!'' @ t @ js '']'' @ body
                    @ js ''</p>'' @ g2 @ js ''</blockquote>'' @ []"
  have "close_at (drop k body @ js ''</p>'' @ g2 @ js ''</blockquote>'' @ []) = None"
    if k: "k < length body" for k
  proof (cases "close_at (drop k body @ js ''</p>'' @ g2 @ js ''</blockquote>'' @ [])")
    case None
    then show ?thesis .
  next
    case (Some y)
    from close_at_extend [OF this, of rest] no k show ?thesis by simp
  qed
  then have "\<forall>k<length body.
      close_at (drop k body @ js ''</p>'' @ g2 @ js ''</blockquote>'' @ []) = None" by blast
  from alert_match_complete [OF t g this] have "alert_match ?w = Some (t, body, [])" .
  moreover have "s = ?w @ rest" by (simp only: s append_assoc append_Nil)
  moreover have "?w \<noteq> []" by (simp add: js_def)
  ultimately show ?thesis by blast
qed

lemma exec_regex_matched:
  assumes "exec regex s = Some (matched, c)"
  shows "\<exists>c'. exec regex matched = Some (matched, c')"
proof -
  from exec_regex_Some [OF assms] obtain t body rest where
    a: "alert_match s = Some (t, body, rest)" and s: "s = matched @ rest" by blast
  from alert_match_matched [OF a] obtain w where
    w: "s = w @ rest" "alert_match w = Some (t, body, [])" by blast
  from s w(1) have "w = matched" by simp
  with w(2) show ?thesis by (simp add: exec_regex)
qed

lemma alert_match_extend:
  assumes "alert_match u = Some (t, body, r)"
  shows "alert_match (u @ v) \<noteq> None"
proof -
  from alert_match_sound [OF assms] obtain g1 g2 where
    u: "u = js ''<blockquote>'' @ g1 @ js ''<p>[!'' @ t @ js '']'' @ body
                    @ js ''</p>'' @ g2 @ js ''</blockquote>'' @ r"
    and g: "\<forall>c\<in>set g1. gap_char c" "\<forall>c\<in>set g2. gap_char c" and t: "t \<in> set tag_names"
    by blast
  from alert_match_exists [OF t g, of body "r @ v"] u show ?thesis by simp
qed

lemma substring_match_iff:
  "(\<exists>u c. sublist u s \<and> exec regex u = Some (u, c))
     \<longleftrightarrow> (\<exists>i<length s. exec regex (drop i s) \<noteq> None)"
proof
  assume "\<exists>u c. sublist u s \<and> exec regex u = Some (u, c)"
  then obtain u c ps ss where s: "s = ps @ u @ ss" and e: "exec regex u = Some (u, c)"
    by (auto simp: sublist_def)
  from exec_regex_Some [OF e] obtain t body rest where
    a: "alert_match u = Some (t, body, rest)" and ne: "u \<noteq> []" by blast
  from alert_match_extend [OF a, of ss] have "exec regex (u @ ss) \<noteq> None"
    by (simp only: exec_regex_None_iff) simp
  moreover from s have "drop (length ps) s = u @ ss" by simp
  moreover from s ne have "length ps < length s" by simp
  ultimately show "\<exists>i<length s. exec regex (drop i s) \<noteq> None" by metis
next
  assume "\<exists>i<length s. exec regex (drop i s) \<noteq> None"
  then obtain i matched c where e: "exec regex (drop i s) = Some (matched, c)" by auto
  from exec_regex_Some [OF e] obtain rest where d: "drop i s = matched @ rest" by blast
  from exec_regex_matched [OF e] obtain c' where c': "exec regex matched = Some (matched, c')"
    by blast
  from d have "s = take i s @ matched @ rest" by (metis append_take_drop_id)
  then have "sublist matched s" by (auto simp: sublist_def)
  with c' show "\<exists>u c. sublist u s \<and> exec regex u = Some (u, c)" by blast
qed

lemma match_free_iff:
  "match_free u v \<longleftrightarrow> (\<forall>i<length u. exec regex (drop i (u @ v)) = None)"
proof (induction u)
  case Nil
  show ?case by simp
next
  case (Cons x u)
  show ?case
  proof
    assume l: "match_free (x # u) v"
    show "\<forall>i<length (x # u). exec regex (drop i ((x # u) @ v)) = None"
    proof (intro allI impI)
      fix i assume "i < length (x # u)"
      with l Cons show "exec regex (drop i ((x # u) @ v)) = None" by (cases i) auto
    qed
  next
    assume r: "\<forall>i<length (x # u). exec regex (drop i ((x # u) @ v)) = None"
    then have "exec regex (drop 0 ((x # u) @ v)) = None" by blast
    moreover have "exec regex (drop i (u @ v)) = None" if "i < length u" for i
      using r [rule_format, of "Suc i"] that by simp
    ultimately show "match_free (x # u) v" using Cons by simp
  qed
qed

lemma match_free_copy:
  assumes "match_free u v" and "transform v = Inr out"
  shows "transform (u @ v) = Inr (u @ out)"
proof -
  from assms(1) have "\<forall>i<length u. alert_match (drop i u @ v) = None"
    by (simp add: match_free_iff exec_regex_None_iff)
  from transform_copy [OF this assms(2)] show ?thesis .
qed

lemma transform_step:
  assumes "exec regex s = Some (w, c)" and "replacer (arg c 2) (arg c 3) = Inr r"
    and "transform (drop (length w) s) = Inr out"
  shows "transform s = Inr (r @ out)"
proof -
  from exec_regex_Some [OF assms(1)] obtain t body rest h where
    a: "alert_match s = Some (t, body, rest)" and s: "s = w @ rest"
    and c: "c = [Some w, h, Some t, Some body]" by blast
  from c assms(2) have "replacer (Some t) (Some body) = Inr r" by (simp add: arg_def)
  moreover from s assms(3) have "transform rest = Inr out" by simp
  ultimately show ?thesis using a by (subst transform_unfold) simp
qed

lemma scanned_transform:
  "scanned s segs rest \<Longrightarrow> transform rest = Inr out \<Longrightarrow>
     s = concat (map (\<lambda>(u, w, r). u @ w) segs) @ rest
     \<and> transform s = Inr (concat (map (\<lambda>(u, w, r). u @ r) segs) @ out)"
proof (induction segs arbitrary: s)
  case Nil
  then show ?case by simp
next
  case (Cons seg segs)
  obtain u w r where seg: "seg = (u, w, r)" by (cases seg)
  let ?s1 = "drop (length u) s"
  from Cons.prems(1) seg have pu: "prefix u s" and mf: "match_free u ?s1"
    and sc: "scanned (drop (length u + length w) s) segs rest" by simp_all
  from Cons.prems(1) seg obtain c where e: "exec regex ?s1 = Some (w, c)"
    and rp: "replacer (arg c 2) (arg c 3) = Inr r"
    by (auto split: option.splits)
  from pu have s: "s = u @ ?s1" by (auto simp: prefix_def)
  from exec_regex_Some [OF e] obtain rest1 where s1: "?s1 = w @ rest1" by blast
  then have d: "drop (length w) ?s1 = rest1" by simp
  have "drop (length u + length w) s = drop (length w) ?s1" by (simp add: add.commute)
  with d sc have sc1: "scanned rest1 segs rest" by simp
  from Cons.IH [OF sc1 Cons.prems(2)] have
    r1: "rest1 = concat (map (\<lambda>(u, w, r). u @ w) segs) @ rest"
    and t1: "transform rest1 = Inr (concat (map (\<lambda>(u, w, r). u @ r) segs) @ out)" by auto
  from transform_step [OF e rp] d t1
  have "transform ?s1 = Inr (r @ concat (map (\<lambda>(u, w, r). u @ r) segs) @ out)" by simp
  from match_free_copy [OF mf this] s
  have "transform s = Inr (u @ r @ concat (map (\<lambda>(u, w, r). u @ r) segs) @ out)" by simp
  moreover from s s1 r1 have "s = u @ w @ concat (map (\<lambda>(u, w, r). u @ w) segs) @ rest"
    by simp
  ultimately show ?case by (simp add: seg)
qed

lemma scanned_exists: "\<exists>segs tail. scanned s segs tail \<and> match_free tail []"
proof (induction s rule: length_induct)
  case (1 s)
  show ?case
  proof (cases "exec regex s")
    case None
    show ?thesis
    proof (cases s)
      case Nil
      have "scanned [] [] [] \<and> match_free [] []" by simp
      with Nil show ?thesis by blast
    next
      case (Cons x xs)
      with 1 obtain segs tail where st: "scanned xs segs tail" "match_free tail []" by auto
      show ?thesis
      proof (cases segs)
        case Nil
        with st None Cons have "scanned s [] s \<and> match_free s []" by simp
        then show ?thesis by blast
      next
        case sg: (Cons seg segs')
        obtain u w r where seg: "seg = (u, w, r)" by (cases seg)
        from st(1) sg seg have pu: "prefix u xs" by simp
        then have xs: "xs = u @ drop (length u) xs" by (auto simp: prefix_def)
        from None Cons xs have "exec regex (x # u @ drop (length u) xs) = None" by simp
        with st(1) sg seg Cons have "scanned s ((x # u, w, r) # segs') tail" by simp
        with st(2) show ?thesis by blast
      qed
    qed
  next
    case (Some a)
    obtain w c where a: "a = (w, c)" by (cases a)
    from exec_regex_Some [OF Some [unfolded a]] obtain t body rest h where
      am: "alert_match s = Some (t, body, rest)" and s: "s = w @ rest" and ne: "w \<noteq> []"
      and c: "c = [Some w, h, Some t, Some body]" by blast
    from s ne have "length rest < length s" by simp
    with 1 obtain segs tail where st: "scanned rest segs tail" "match_free tail []" by auto
    from alert_match_sound [OF am] have "t \<in> set tag_names" by blast
    then obtain r where "replacer (Some t) (Some body) = Inr r"
      using map_of_tag_names replacer_tag by blast
    with c have "replacer (arg c 2) (arg c 3) = Inr r" by (simp add: arg_def)
    moreover from s have "drop (length w) s = rest" by simp
    ultimately have "scanned s (([], w, r) # segs) tail" using Some a st(1) by simp
    with st(2) show ?thesis by blast
  qed
qed

lemma match_free_append: "match_free (u @ s) v \<longleftrightarrow> match_free u (s @ v) \<and> match_free s v"
  by (induction u) simp_all

lemma match_free_region:
  "exec regex (s @ v) = None \<Longrightarrow> match_free (tl s) v \<Longrightarrow> match_free s v"
  by (cases s) simp_all

lemma region_in_context:
  assumes sc: "scanned d segs (u @ s @ v)" and mu: "match_free u (s @ v)"
    and e: "exec regex (s @ v) = None" and ms: "match_free (tl s) v"
  shows "\<exists>out. transform v = Inr out
     \<and> transform d = Inr (concat (map (\<lambda>(u, w, r). u @ r) segs) @ u @ s @ out)"
proof -
  obtain out where out: "transform v = Inr out" using transform_total by blast
  from match_free_region [OF e ms] mu have "match_free (u @ s) v"
    by (simp add: match_free_append)
  from match_free_copy [OF this out] have "transform (u @ s @ v) = Inr (u @ s @ out)" by simp
  from scanned_transform [OF sc this] out show ?thesis by auto
qed

section \<open>The claims\<close>

text \<open>
  The claim C1 as stated, with the paragraph \<^verbatim>\<open><p>body text</p>\<close>, fails
  for the tag NOTE.
\<close>

theorem one_line_body_counterexample:
  \<open>transform (js ''<blockquote><p>[!NOTE] body text</p></blockquote>'') \<noteq>
     Inr (js ''<div class="alert is-info"><p class="alert-title"><ion-icon name="alert-circle-outline"></ion-icon> Note</p><p>body text</p></div>'')\<close>
  by (simp add: transform_unfold scan_simps)

text \<open>
  C1 (as amended). For each of the five tags, the one-line blockquote
  \<^verbatim>\<open><blockquote><p>[!TAG] body text</p></blockquote>\<close> becomes the container
  with the style class and the label of the tag and the single paragraph
  \<^verbatim>\<open><p> body text</p>\<close>: the body text is everything behind the closing
  bracket, so the space that follows the bracket is kept.
\<close>

theorem one_line_body_keeps_space:
  \<open>transform (js ''<blockquote><p>[!NOTE] body text</p></blockquote>'') =
     Inr (js ''<div class="alert is-info"><p class="alert-title"><ion-icon name="alert-circle-outline"></ion-icon> Note</p><p> body text</p></div>'')
   \<and> transform (js ''<blockquote><p>[!TIP] body text</p></blockquote>'') =
     Inr (js ''<div class="alert is-success"><p class="alert-title"><ion-icon name="leaf-outline"></ion-icon> Tip</p><p> body text</p></div>'')
   \<and> transform (js ''<blockquote><p>[!IMPORTANT] body text</p></blockquote>'') =
     Inr (js ''<div class="alert is-important"><p class="alert-title"><ion-icon name="hand-right-outline"></ion-icon> Important</p><p> body text</p></div>'')
   \<and> transform (js ''<blockquote><p>[!CAUTION] body text</p></blockquote>'') =
     Inr (js ''<div class="alert is-caution"><p class="alert-title"><ion-icon name="skull-outline"></ion-icon> Caution</p><p> body text</p></div>'')
   \<and> transform (js ''<blockquote><p>[!WARNING] body text</p></blockquote>'') =
     Inr (js ''<div class="alert is-warning"><p class="alert-title"><ion-icon name="warning-outline"></ion-icon> Warning</p><p> body text</p></div>'')\<close>
proof (intro conjI)
  show \<open>transform (js ''<blockquote><p>[!NOTE] body text</p></blockquote>'') =
     Inr (js ''<div class="alert is-info"><p class="alert-title"><ion-icon name="alert-circle-outline"></ion-icon> Note</p><p> body text</p></div>'')\<close>
    by (simp add: transform_unfold scan_simps)
  show \<open>transform (js ''<blockquote><p>[!TIP] body text</p></blockquote>'') =
     Inr (js ''<div class="alert is-success"><p class="alert-title"><ion-icon name="leaf-outline"></ion-icon> Tip</p><p> body text</p></div>'')\<close>
    by (simp add: transform_unfold scan_simps)
  show \<open>transform (js ''<blockquote><p>[!IMPORTANT] body text</p></blockquote>'') =
     Inr (js ''<div class="alert is-important"><p class="alert-title"><ion-icon name="hand-right-outline"></ion-icon> Important</p><p> body text</p></div>'')\<close>
    by (simp add: transform_unfold scan_simps)
  show \<open>transform (js ''<blockquote><p>[!CAUTION] body text</p></blockquote>'') =
     Inr (js ''<div class="alert is-caution"><p class="alert-title"><ion-icon name="skull-outline"></ion-icon> Caution</p><p> body text</p></div>'')\<close>
    by (simp add: transform_unfold scan_simps)
  show \<open>transform (js ''<blockquote><p>[!WARNING] body text</p></blockquote>'') =
     Inr (js ''<div class="alert is-warning"><p class="alert-title"><ion-icon name="warning-outline"></ion-icon> Warning</p><p> body text</p></div>'')\<close>
    by (simp add: transform_unfold scan_simps)
qed

text \<open>
  The claim C2 as stated fails on its own example: a blockquote with two
  sibling paragraphs, the first beginning with \<^verbatim>\<open>[!NOTE]\<close>, is not left
  unchanged.
\<close>

theorem malformed_nesting_counterexample:
  \<open>transform (js ''<blockquote><p>[!NOTE] a</p><p>b</p></blockquote>'')
     \<noteq> Inr (js ''<blockquote><p>[!NOTE] a</p><p>b</p></blockquote>'')\<close>
  by (simp add: transform_unfold scan_simps)

text \<open>
  C2 (as amended). The pattern matches at the start of \<open>s\<close> exactly when
  \<open>s\<close> is \<^verbatim>\<open><blockquote>\<close>, a run of class characters, \<^verbatim>\<open><p>[!\<close>, one
  of the five tags, \<^verbatim>\<open>]\<close>, any text, \<^verbatim>\<open></p>\<close>, a run of class characters,
  \<^verbatim>\<open></blockquote>\<close> and any rest. A region \<open>b\<close> anywhere in a document, at
  which the pattern does not match and inside which no match starts, is
  left unchanged when the scan reaches it: the document is cut by \<open>segs\<close>
  up to a stretch \<open>u\<close> without a match start, \<open>b\<close> follows and \<open>v\<close> is
  behind it. The text between the tag and the closing sequence is
  arbitrary: the blockquote with two sibling paragraphs is of the form of
  the pattern and is rewritten, its body reaching to the last \<^verbatim>\<open></p>\<close>.
\<close>

theorem blockquote_match_shape:
  \<open>(exec regex s \<noteq> None \<longleftrightarrow>
      (\<exists>g1 t body g2 rest.
         s = js ''<blockquote>'' @ g1 @ js ''<p>[!'' @ t @ js '']'' @ body
             @ js ''</p>'' @ g2 @ js ''</blockquote>'' @ rest
         \<and> (\<forall>c\<in>set g1. gap_char c) \<and> (\<forall>c\<in>set g2. gap_char c)
         \<and> t \<in> {js ''NOTE'', js ''TIP'', js ''IMPORTANT'', js ''CAUTION'', js ''WARNING''}))
   \<and> (scanned d segs (u @ b @ v) \<and> match_free u (b @ v)
        \<and> exec regex (b @ v) = None \<and> match_free (tl b) v \<longrightarrow>
        (\<exists>out. transform v = Inr out
           \<and> transform d = Inr (concat (map (\<lambda>(u, w, r). u @ r) segs) @ u @ b @ out)))
   \<and> transform (js ''<blockquote><p>[!NOTE] a</p><p>b</p></blockquote>'') =
       Inr (js ''<div class="alert is-info"><p class="alert-title"><ion-icon name="alert-circle-outline"></ion-icon> Note</p><p> a</p><p>b</p></div>'')\<close>
proof (intro conjI impI iffI)
  assume "exec regex s \<noteq> None"
  then obtain t body rest where "alert_match s = Some (t, body, rest)"
    by (auto simp: exec_regex_None_iff)
  from alert_match_sound [OF this]
  show "\<exists>g1 t body g2 rest.
         s = js ''<blockquote>'' @ g1 @ js ''<p>[!'' @ t @ js '']'' @ body
             @ js ''</p>'' @ g2 @ js ''</blockquote>'' @ rest
         \<and> (\<forall>c\<in>set g1. gap_char c) \<and> (\<forall>c\<in>set g2. gap_char c)
         \<and> t \<in> {js ''NOTE'', js ''TIP'', js ''IMPORTANT'', js ''CAUTION'', js ''WARNING''}"
    by (simp only: tag_names_set) blast
next
  assume "\<exists>g1 t body g2 rest.
         s = js ''<blockquote>'' @ g1 @ js ''<p>[!'' @ t @ js '']'' @ body
             @ js ''</p>'' @ g2 @ js ''</blockquote>'' @ rest
         \<and> (\<forall>c\<in>set g1. gap_char c) \<and> (\<forall>c\<in>set g2. gap_char c)
         \<and> t \<in> {js ''NOTE'', js ''TIP'', js ''IMPORTANT'', js ''CAUTION'', js ''WARNING''}"
  then obtain g1 t body g2 rest where
    s: "s = js ''<blockquote>'' @ g1 @ js ''<p>[!'' @ t @ js '']'' @ body
             @ js ''</p>'' @ g2 @ js ''</blockquote>'' @ rest"
    and g: "\<forall>c\<in>set g1. gap_char c" "\<forall>c\<in>set g2. gap_char c"
    and t: "t \<in> {js ''NOTE'', js ''TIP'', js ''IMPORTANT'', js ''CAUTION'', js ''WARNING''}"
    by blast
  from t have "t \<in> set tag_names" by (simp only: tag_names_set)
  from alert_match_exists [OF this g] s show "exec regex s \<noteq> None"
    by (simp only: exec_regex_None_iff) simp
next
  assume "scanned d segs (u @ b @ v) \<and> match_free u (b @ v)
        \<and> exec regex (b @ v) = None \<and> match_free (tl b) v"
  then show "\<exists>out. transform v = Inr out
           \<and> transform d = Inr (concat (map (\<lambda>(u, w, r). u @ r) segs) @ u @ b @ out)"
    by (intro region_in_context) simp_all
next
  show \<open>transform (js ''<blockquote><p>[!NOTE] a</p><p>b</p></blockquote>'') =
       Inr (js ''<div class="alert is-info"><p class="alert-title"><ion-icon name="alert-circle-outline"></ion-icon> Note</p><p> a</p><p>b</p></div>'')\<close>
    by (simp add: transform_unfold scan_simps)
qed

theorem blockquote_match_shape_witness:
  \<open>exec regex (js ''<blockquote><p>first</p><p>[!NOTE] second</p></blockquote>'' @ js '' end'')
     = None
   \<and> \<not> (\<exists>g1 t body g2 rest.
         js ''<blockquote><p>first</p><p>[!NOTE] second</p></blockquote>'' @ js '' end''
           = js ''<blockquote>'' @ g1 @ js ''<p>[!'' @ t @ js '']'' @ body
             @ js ''</p>'' @ g2 @ js ''</blockquote>'' @ rest
         \<and> (\<forall>c\<in>set g1. gap_char c) \<and> (\<forall>c\<in>set g2. gap_char c)
         \<and> t \<in> {js ''NOTE'', js ''TIP'', js ''IMPORTANT'', js ''CAUTION'', js ''WARNING''})
   \<and> scanned (js ''<blockquote><p>[!TIP] t</p></blockquote> and <blockquote><p>first</p><p>[!NOTE] second</p></blockquote> end'')
        [([], js ''<blockquote><p>[!TIP] t</p></blockquote>'',
          js ''<div class="alert is-success"><p class="alert-title"><ion-icon name="leaf-outline"></ion-icon> Tip</p><p> t</p></div>'')]
        (js '' and '' @ js ''<blockquote><p>first</p><p>[!NOTE] second</p></blockquote>''
           @ js '' end'')
   \<and> match_free (js '' and '')
        (js ''<blockquote><p>first</p><p>[!NOTE] second</p></blockquote>'' @ js '' end'')
   \<and> match_free (tl (js ''<blockquote><p>first</p><p>[!NOTE] second</p></blockquote>''))
        (js '' end'')
   \<and> transform (js ''<blockquote><p>[!TIP] t</p></blockquote> and <blockquote><p>first</p><p>[!NOTE] second</p></blockquote> end'')
       = Inr (js ''<div class="alert is-success"><p class="alert-title"><ion-icon name="leaf-outline"></ion-icon> Tip</p><p> t</p></div> and <blockquote><p>first</p><p>[!NOTE] second</p></blockquote> end'')\<close>
proof -
  let ?b = \<open>js ''<blockquote><p>first</p><p>[!NOTE] second</p></blockquote>''\<close>
  let ?v = \<open>js '' end''\<close>
  let ?u = \<open>js '' and ''\<close>
  let ?d = \<open>js ''<blockquote><p>[!TIP] t</p></blockquote> and <blockquote><p>first</p><p>[!NOTE] second</p></blockquote> end''\<close>
  let ?segs = \<open>[([], js ''<blockquote><p>[!TIP] t</p></blockquote>'',
          js ''<div class="alert is-success"><p class="alert-title"><ion-icon name="leaf-outline"></ion-icon> Tip</p><p> t</p></div>'')]\<close>
  have h1: "exec regex (?b @ ?v) = None"
    by (simp add: exec_regex scan_simps)
  have h2: "scanned ?d ?segs (?u @ ?b @ ?v)"
    by (simp add: exec_regex exec_regex_None_iff scan_simps arg_def)
  have h3: "match_free ?u (?b @ ?v)"
    by (simp add: exec_regex_None_iff scan_simps)
  have h4: "match_free (tl ?b) ?v"
    by (simp add: exec_regex_None_iff scan_simps)
  have tv: "transform ?v = Inr ?v"
    by (simp add: transform_unfold scan_simps)
  from h1 h2 h3 h4 blockquote_match_shape [of "?b @ ?v" ?d ?segs ?u ?b ?v]
  have a: \<open>\<not> (\<exists>g1 t body g2 rest.
         ?b @ ?v
           = js ''<blockquote>'' @ g1 @ js ''<p>[!'' @ t @ js '']'' @ body
             @ js ''</p>'' @ g2 @ js ''</blockquote>'' @ rest
         \<and> (\<forall>c\<in>set g1. gap_char c) \<and> (\<forall>c\<in>set g2. gap_char c)
         \<and> t \<in> {js ''NOTE'', js ''TIP'', js ''IMPORTANT'', js ''CAUTION'', js ''WARNING''})\<close>
    and b: "\<exists>out. transform ?v = Inr out
           \<and> transform ?d = Inr (concat (map (\<lambda>(u, w, r). u @ r) ?segs) @ ?u @ ?b @ out)"
    by blast+
  from b tv have "transform ?d = Inr (concat (map (\<lambda>(u, w, r). u @ r) ?segs) @ ?u @ ?b @ ?v)"
    by auto
  then have \<open>transform ?d = Inr (js ''<div class="alert is-success"><p class="alert-title"><ion-icon name="leaf-outline"></ion-icon> Tip</p><p> t</p></div> and <blockquote><p>first</p><p>[!NOTE] second</p></blockquote> end'')\<close>
    by (simp add: js_def)
  with h1 a h2 h3 h4 show ?thesis by blast
qed

text \<open>
  C3. For every match whose body text begins with \<^verbatim>\<open><br>\<close>: splitting
  the body gives the empty line first and then the lines of the remainder;
  the empty line is dropped and each line of the remainder, empty or not,
  becomes one paragraph, in order, between the title and the end of the
  container. The example of the claim yields exactly the two paragraphs.
\<close>

theorem leading_break_discarded:
  \<open>(exec regex s = Some (matched, c) \<and> arg c 3 = Some (js ''<br>'' @ r) \<longrightarrow>
      split (js ''<br>'' @ r) (js ''<br>'') = [] # split r (js ''<br>'')
      \<and> (\<exists>t a out. arg c 2 = Some t \<and> map_of alertConfig t = Some a
            \<and> transform (drop (length matched) s) = Inr out
            \<and> transform s =
                Inr (js ''<div class="alert '' @ className a @ js ''"><p class="alert-title">''
                     @ ja a @ js ''</p>''
                     @ concat (map (\<lambda>l. js ''<p>'' @ l @ js ''</p>'') (split r (js ''<br>'')))
                     @ js ''</div>'' @ out)))
   \<and> transform (js ''<blockquote><p>[!NOTE]<br>line one<br>line two</p></blockquote>'') =
       Inr (js ''<div class="alert is-info"><p class="alert-title"><ion-icon name="alert-circle-outline"></ion-icon> Note</p><p>line one</p><p>line two</p></div>'')\<close>
proof (intro conjI impI)
  assume h: \<open>exec regex s = Some (matched, c) \<and> arg c 3 = Some (js ''<br>'' @ r)\<close>
  have ne: "js ''<br>'' \<noteq> []" by (simp add: js_def)
  show "split (js ''<br>'' @ r) (js ''<br>'') = [] # split r (js ''<br>'')"
    by (rule split_sep_first [OF ne])
  from h exec_regex_Some [of s matched c] obtain t body rest hd where
    a: "alert_match s = Some (t, body, rest)" and s: "s = matched @ rest"
    and c: "c = [Some matched, hd, Some t, Some body]" by blast
  from h c have body: "body = js ''<br>'' @ r" and t: "arg c 2 = Some t"
    by (simp_all add: arg_def)
  from alert_match_sound [OF a] have "t \<in> set tag_names" by blast
  then obtain al where al: "map_of alertConfig t = Some al" using map_of_tag_names by blast
  from transform_match [OF a] obtain rep out where
    rep: "replacer (Some t) (Some body) = Inr rep" and out: "transform rest = Inr out"
    and tr: "transform s = Inr (rep @ out)" by blast
  from s have dr: "drop (length matched) s = rest" by simp
  from rep body replacer_leading_break [OF al, of r] tr
  have \<open>transform s =
     Inr (js ''<div class="alert '' @ className al @ js ''"><p class="alert-title">''
          @ ja al @ js ''</p>''
          @ concat (map (\<lambda>l. js ''<p>'' @ l @ js ''</p>'') (split r (js ''<br>'')))
          @ js ''</div>'' @ out)\<close>
    by simp
  with t al out dr
  show \<open>\<exists>t a out. arg c 2 = Some t \<and> map_of alertConfig t = Some a
            \<and> transform (drop (length matched) s) = Inr out
            \<and> transform s =
                Inr (js ''<div class="alert '' @ className a @ js ''"><p class="alert-title">''
                     @ ja a @ js ''</p>''
                     @ concat (map (\<lambda>l. js ''<p>'' @ l @ js ''</p>'') (split r (js ''<br>'')))
                     @ js ''</div>'' @ out)\<close>
    by blast
next
  show \<open>transform (js ''<blockquote><p>[!NOTE]<br>line one<br>line two</p></blockquote>'') =
       Inr (js ''<div class="alert is-info"><p class="alert-title"><ion-icon name="alert-circle-outline"></ion-icon> Note</p><p>line one</p><p>line two</p></div>'')\<close>
    by (simp add: transform_unfold scan_simps)
qed

theorem leading_break_discarded_witness:
  \<open>exec regex (js ''<blockquote><p>[!TIP]<br>one<br><br>two</p></blockquote>tail'')
     = Some (js ''<blockquote><p>[!TIP]<br>one<br><br>two</p></blockquote>'',
             [Some (js ''<blockquote><p>[!TIP]<br>one<br><br>two</p></blockquote>''),
              Some (js ''<blockquote><p>[!''), Some (js ''TIP''),
              Some (js ''<br>'' @ js ''one<br><br>two'')])
   \<and> arg [Some (js ''<blockquote><p>[!TIP]<br>one<br><br>two</p></blockquote>''),
              Some (js ''<blockquote><p>[!''), Some (js ''TIP''),
              Some (js ''<br>'' @ js ''one<br><br>two'')] 3
       = Some (js ''<br>'' @ js ''one<br><br>two'')
   \<and> split (js ''one<br><br>two'') (js ''<br>'') = [js ''one'', js '''', js ''two'']
   \<and> transform (js ''<blockquote><p>[!TIP]<br>one<br><br>two</p></blockquote>tail'') =
       Inr (js ''<div class="alert is-success"><p class="alert-title"><ion-icon name="leaf-outline"></ion-icon> Tip</p><p>one</p><p></p><p>two</p></div>tail'')\<close>
proof -
  let ?s = \<open>js ''<blockquote><p>[!TIP]<br>one<br><br>two</p></blockquote>tail''\<close>
  let ?m = \<open>js ''<blockquote><p>[!TIP]<br>one<br><br>two</p></blockquote>''\<close>
  let ?c = \<open>[Some (js ''<blockquote><p>[!TIP]<br>one<br><br>two</p></blockquote>''),
              Some (js ''<blockquote><p>[!''), Some (js ''TIP''),
              Some (js ''<br>'' @ js ''one<br><br>two'')]\<close>
  have h1: "exec regex ?s = Some (?m, ?c)"
    by (simp add: exec_regex scan_simps)
  have h2: \<open>arg ?c 3 = Some (js ''<br>'' @ js ''one<br><br>two'')\<close>
    by (simp add: arg_def)
  have sp: \<open>split (js ''one<br><br>two'') (js ''<br>'') = [js ''one'', js '''', js ''two'']\<close>
    by (simp add: split_def js_def)
  have dr: \<open>drop (length ?m) ?s = js ''tail''\<close> by (simp add: js_def)
  have tl: \<open>transform (js ''tail'') = Inr (js ''tail'')\<close>
    by (simp add: transform_unfold scan_simps)
  have ar: "arg ?c 2 = Some (js ''TIP'')" by (simp add: arg_def)
  have mo: \<open>map_of alertConfig (js ''TIP'') = Some \<lparr>className = js ''is-success'',
          ja = js ''<ion-icon name="leaf-outline"></ion-icon> Tip''\<rparr>\<close>
    by (simp add: alertConfig_def js_def)
  from leading_break_discarded [of ?s ?m ?c "js ''one<br><br>two''"] h1 h2
  obtain t a out where "arg ?c 2 = Some t" "map_of alertConfig t = Some a"
    "transform (drop (length ?m) ?s) = Inr out"
    \<open>transform ?s =
                Inr (js ''<div class="alert '' @ className a @ js ''"><p class="alert-title">''
                     @ ja a @ js ''</p>''
                     @ concat (map (\<lambda>l. js ''<p>'' @ l @ js ''</p>'')
                         (split (js ''one<br><br>two'') (js ''<br>'')))
                     @ js ''</div>'' @ out)\<close>
    by blast
  with ar mo dr tl sp have \<open>transform ?s =
       Inr (js ''<div class="alert is-success"><p class="alert-title"><ion-icon name="leaf-outline"></ion-icon> Tip</p><p>one</p><p></p><p>two</p></div>tail'')\<close>
    by (simp add: js_def)
  with h1 h2 sp show ?thesis by blast
qed

text \<open>
  C4. When no substring of the input is matched by the pattern, the
  transform returns the input. A stretch \<open>u\<close> in which no match starts is
  copied unchanged in front of the transform of what follows. For every
  input: whenever \<open>segs\<close> and \<open>tail\<close> cut the input into the stretches
  without a match start, the matches and a last stretch \<open>tail\<close>, the
  output is the same stretches, each unchanged and in place, with every
  match replaced by the value of the replacer, and \<open>tail\<close> unchanged at
  the end; and every input can be cut so.
\<close>

theorem pass_through:
  "(\<not> (\<exists>u c. sublist u s \<and> exec regex u = Some (u, c)) \<longrightarrow> transform s = Inr s)
   \<and> ((\<forall>i<length u. exec regex (drop i (u @ v)) = None) \<longrightarrow>
        (\<exists>out. transform v = Inr out \<and> transform (u @ v) = Inr (u @ out)))
   \<and> (scanned d segs tail \<and> match_free tail [] \<longrightarrow>
        d = concat (map (\<lambda>(u, w, r). u @ w) segs) @ tail
        \<and> transform d = Inr (concat (map (\<lambda>(u, w, r). u @ r) segs) @ tail))
   \<and> (\<exists>segs tail. scanned d segs tail \<and> match_free tail [])"
proof (intro conjI impI)
  assume "\<not> (\<exists>u c. sublist u s \<and> exec regex u = Some (u, c))"
  then have "\<forall>i<length s. exec regex (drop i s) = None"
    by (simp only: substring_match_iff) blast
  then have "\<forall>i<length s. alert_match (drop i s @ []) = None"
    by (simp add: exec_regex_None_iff)
  from transform_copy [OF this transform_Nil] show "transform s = Inr s" by simp
next
  assume "\<forall>i<length u. exec regex (drop i (u @ v)) = None"
  then have n: "\<forall>i<length u. alert_match (drop i u @ v) = None"
    by (simp add: exec_regex_None_iff)
  obtain out where out: "transform v = Inr out" using transform_total by blast
  from transform_copy [OF n out] out
  show "\<exists>out. transform v = Inr out \<and> transform (u @ v) = Inr (u @ out)" by blast
next
  assume h: "scanned d segs tail \<and> match_free tail []"
  then have "transform (tail @ []) = Inr (tail @ [])"
    by (intro match_free_copy transform_Nil) simp
  then have t: "transform tail = Inr tail" by simp
  from h scanned_transform [OF _ t, of d segs]
  show "d = concat (map (\<lambda>(u, w, r). u @ w) segs) @ tail"
    and "transform d = Inr (concat (map (\<lambda>(u, w, r). u @ r) segs) @ tail)" by auto
next
  show "\<exists>segs tail. scanned d segs tail \<and> match_free tail []" by (rule scanned_exists)
qed

theorem pass_through_witness:
  \<open>\<not> (\<exists>u c. sublist u (js ''<blockquote><p>plain</p></blockquote>'')
             \<and> exec regex u = Some (u, c))
   \<and> transform (js ''<blockquote><p>plain</p></blockquote>'')
       = Inr (js ''<blockquote><p>plain</p></blockquote>'')
   \<and> list_all (\<lambda>t. exec regex (t @ js ''<blockquote><p>[!TIP] t</p></blockquote>.'') = None)
        (tl (suffixes (js ''a <b>c</b> '')))
   \<and> (\<exists>out. transform (js ''<blockquote><p>[!TIP] t</p></blockquote>.'') = Inr out
        \<and> transform (js ''a <b>c</b> '' @ js ''<blockquote><p>[!TIP] t</p></blockquote>.'')
            = Inr (js ''a <b>c</b> '' @ out))
   \<and> scanned (js ''ab<blockquote><p>[!TIP] t</p></blockquote>XY<blockquote><p>[!NOTE] n</p></blockquote>Z'')
        [(js ''ab'', js ''<blockquote><p>[!TIP] t</p></blockquote>'',
          js ''<div class="alert is-success"><p class="alert-title"><ion-icon name="leaf-outline"></ion-icon> Tip</p><p> t</p></div>''),
         (js ''XY'', js ''<blockquote><p>[!NOTE] n</p></blockquote>'',
          js ''<div class="alert is-info"><p class="alert-title"><ion-icon name="alert-circle-outline"></ion-icon> Note</p><p> n</p></div>'')]
        (js ''Z'')
   \<and> match_free (js ''Z'') []
   \<and> transform (js ''ab<blockquote><p>[!TIP] t</p></blockquote>XY<blockquote><p>[!NOTE] n</p></blockquote>Z'')
       = Inr (js ''ab<div class="alert is-success"><p class="alert-title"><ion-icon name="leaf-outline"></ion-icon> Tip</p><p> t</p></div>XY<div class="alert is-info"><p class="alert-title"><ion-icon name="alert-circle-outline"></ion-icon> Note</p><p> n</p></div>Z'')\<close>
proof -
  let ?s = \<open>js ''<blockquote><p>plain</p></blockquote>''\<close>
  let ?d = \<open>js ''ab<blockquote><p>[!TIP] t</p></blockquote>XY<blockquote><p>[!NOTE] n</p></blockquote>Z''\<close>
  let ?segs = \<open>[(js ''ab'', js ''<blockquote><p>[!TIP] t</p></blockquote>'',
          js ''<div class="alert is-success"><p class="alert-title"><ion-icon name="leaf-outline"></ion-icon> Tip</p><p> t</p></div>''),
         (js ''XY'', js ''<blockquote><p>[!NOTE] n</p></blockquote>'',
          js ''<div class="alert is-info"><p class="alert-title"><ion-icon name="alert-circle-outline"></ion-icon> Note</p><p> n</p></div>'')]\<close>
  have \<open>list_all (\<lambda>t. exec regex (t @ []) = None) (tl (suffixes ?s))\<close>
    by (simp add: exec_regex_None_iff scan_simps)
  from all_drop_suffixes [OF this]
  have h1: "\<not> (\<exists>u c. sublist u ?s \<and> exec regex u = Some (u, c))"
    by (simp only: substring_match_iff) simp
  have h2: \<open>list_all (\<lambda>t. exec regex (t @ js ''<blockquote><p>[!TIP] t</p></blockquote>.'') = None)
        (tl (suffixes (js ''a <b>c</b> '')))\<close>
    by (simp add: exec_regex_None_iff scan_simps)
  have h3: "scanned ?d ?segs (js ''Z'')"
    by (simp add: exec_regex exec_regex_None_iff scan_simps arg_def)
  have h4: "match_free (js ''Z'') []"
    by (simp add: exec_regex_None_iff scan_simps)
  from h1 all_drop_suffixes [OF h2] h3 h4
    pass_through [of ?s "js ''a <b>c</b> ''"
      "js ''<blockquote><p>[!TIP] t</p></blockquote>.''" ?d ?segs "js ''Z''"]
  have \<open>transform ?s = Inr ?s
   \<and> (\<exists>out. transform (js ''<blockquote><p>[!TIP] t</p></blockquote>.'') = Inr out
        \<and> transform (js ''a <b>c</b> '' @ js ''<blockquote><p>[!TIP] t</p></blockquote>.'')
            = Inr (js ''a <b>c</b> '' @ out))
   \<and> transform ?d = Inr (concat (map (\<lambda>(u, w, r). u @ r) ?segs) @ js ''Z'')\<close>
    by blast
  moreover have \<open>concat (map (\<lambda>(u, w, r). u @ r) ?segs) @ js ''Z''
     = js ''ab<div class="alert is-success"><p class="alert-title"><ion-icon name="leaf-outline"></ion-icon> Tip</p><p> t</p></div>XY<div class="alert is-info"><p class="alert-title"><ion-icon name="alert-circle-outline"></ion-icon> Note</p><p> n</p></div>Z''\<close>
    by (simp add: js_def)
  ultimately show ?thesis using h1 h2 h3 h4 by simp
qed






text \<open>
  C7. For each of the five tags, white space \<open>g1\<close> between
  \<^verbatim>\<open><blockquote>\<close> and \<^verbatim>\<open><p>\<close> and white space \<open>g2\<close> between \<^verbatim>\<open></p>\<close>
  and \<^verbatim>\<open></blockquote>\<close>, and a paragraph content \<open>body\<close> (a text without
  \<^verbatim>\<open></p>\<close>): the spaced blockquote and the unspaced one are replaced by
  the same container, in front of the transform of the rest.
\<close>

theorem gap_tolerance:
  assumes "t \<in> {js ''NOTE'', js ''TIP'', js ''IMPORTANT'', js ''CAUTION'', js ''WARNING''}"
    and "\<forall>c\<in>set g1. is_white_space c" and "\<forall>c\<in>set g2. is_white_space c"
    and "\<not> sublist (js ''</p>'') body"
  shows "\<exists>rep out. replacer (Some t) (Some body) = Inr rep \<and> transform rest = Inr out
     \<and> transform (js ''<blockquote>'' @ g1 @ js ''<p>[!'' @ t @ js '']'' @ body @ js ''</p>'' @ g2
                   @ js ''</blockquote>'' @ rest) = Inr (rep @ out)
     \<and> transform (js ''<blockquote>'' @ js ''<p>[!'' @ t @ js '']'' @ body @ js ''</p>''
                   @ js ''</blockquote>'' @ rest) = Inr (rep @ out)"
proof -
  from assms(1) have t: "t \<in> set tag_names" by (simp only: tag_names_set)
  from assms(2,3) have g: "\<forall>c\<in>set g1. gap_char c" "\<forall>c\<in>set g2. gap_char c"
    by (auto intro: white_space_gap)
  have e: "\<forall>c\<in>set ([] :: jsstring). gap_char c" by simp
  let ?ind = "js ''<blockquote>'' @ g1 @ js ''<p>[!'' @ t @ js '']'' @ body @ js ''</p>'' @ g2
                   @ js ''</blockquote>'' @ rest"
  let ?pl = "js ''<blockquote>'' @ [] @ js ''<p>[!'' @ t @ js '']'' @ body @ js ''</p>'' @ []
                   @ js ''</blockquote>'' @ rest"
  have a1: "alert_match ?ind = Some (t, body, rest)"
    using t g no_close_inside [OF assms(4)] by (intro alert_match_complete) auto
  have a2: "alert_match ?pl = Some (t, body, rest)"
    using t e no_close_inside [OF assms(4)] by (intro alert_match_complete) auto
  from transform_match [OF a1] obtain rep out where
    r: "replacer (Some t) (Some body) = Inr rep" "transform rest = Inr out"
      "transform ?ind = Inr (rep @ out)" by blast
  from transform_match [OF a2] r(1,2) have "transform ?pl = Inr (rep @ out)" by auto
  with r show ?thesis by auto
qed

theorem gap_tolerance_witness:
  \<open>js ''WARNING'' \<in> {js ''NOTE'', js ''TIP'', js ''IMPORTANT'', js ''CAUTION'', js ''WARNING''}
   \<and> list_all is_white_space [0x0A, 0x20, 0x20]
   \<and> list_all is_white_space [0x0D, 0x0A, 0x09]
   \<and> \<not> sublist (js ''</p>'') (js '' one<br>two'')
   \<and> (\<exists>rep out. replacer (Some (js ''WARNING'')) (Some (js '' one<br>two'')) = Inr rep
        \<and> transform (js ''<p>after</p>'') = Inr out
        \<and> transform (js ''<blockquote>'' @ [0x0A, 0x20, 0x20] @ js ''<p>[!'' @ js ''WARNING''
              @ js '']'' @ js '' one<br>two'' @ js ''</p>'' @ [0x0D, 0x0A, 0x09]
              @ js ''</blockquote>'' @ js ''<p>after</p>'') = Inr (rep @ out)
        \<and> transform (js ''<blockquote>'' @ js ''<p>[!'' @ js ''WARNING''
              @ js '']'' @ js '' one<br>two'' @ js ''</p>''
              @ js ''</blockquote>'' @ js ''<p>after</p>'') = Inr (rep @ out))\<close>
proof -
  have h1: \<open>js ''WARNING'' \<in> {js ''NOTE'', js ''TIP'', js ''IMPORTANT'', js ''CAUTION'', js ''WARNING''}\<close>
    by simp
  have h2: "list_all is_white_space [0x0A, 0x20, 0x20]"
    by (simp add: is_white_space_def)
  have h3: "list_all is_white_space [0x0D, 0x0A, 0x09]"
    by (simp add: is_white_space_def)
  have h4: \<open>\<not> sublist (js ''</p>'') (js '' one<br>two'')\<close>
    by (simp add: js_def sublist_Cons_right)
  from gap_tolerance [OF h1 h2 [unfolded list_all_iff] h3 [unfolded list_all_iff] h4,
      of "js ''<p>after</p>''"] h1 h2 h3 h4
  show ?thesis by blast
qed



text \<open>
  C8. The filter, applied to a document, returns that document with
  \<open>content\<close> replaced by the transformed text; it always returns, and the
  other fields of the document (the extension of the record) are those it
  was given.
\<close>

theorem after_post_render_frame:
  "\<exists>s'. transform (content data) = Inr s'
      \<and> after_post_render data = Inr (data\<lparr>content := s'\<rparr>)
      \<and> document.more (data\<lparr>content := s'\<rparr>) = document.more data"
proof -
  obtain s' where "transform (content data) = Inr s'" using transform_total by blast
  then show ?thesis by (simp add: after_post_render_def)
qed

text \<open>
  C9. The alternatives of the second group of the pattern and the keys
  of \<open>alertConfig\<close> are the same set; the transform returns a string on
  every input, so no TypeError is thrown; and whenever the pattern matches,
  the second capture is a key of the table and the third capture is a
  string.
\<close>

theorem tag_lookup_defined:
  "set (alternatives tags) = fst ` set alertConfig
   \<and> (\<exists>out. transform s = Inr out)
   \<and> (exec regex s' = Some (matched, c) \<longrightarrow>
        (\<exists>k alert body. arg c 2 = Some k \<and> map_of alertConfig k = Some alert
            \<and> arg c 3 = Some body))"
proof (intro conjI impI)
  show "set (alternatives tags) = fst ` set alertConfig"
    by (simp add: tags_def alertConfig_def) blast
  show "\<exists>out. transform s = Inr out" by (rule transform_total)
next
  assume "exec regex s' = Some (matched, c)"
  from exec_regex_Some [OF this] obtain t body rest h where
    a: "alert_match s' = Some (t, body, rest)" and c: "c = [Some matched, h, Some t, Some body]"
    by blast
  from alert_match_sound [OF a] have "t \<in> set tag_names" by blast
  then obtain alert where "map_of alertConfig t = Some alert" using map_of_tag_names by blast
  with c show "\<exists>k alert body. arg c 2 = Some k \<and> map_of alertConfig k = Some alert
            \<and> arg c 3 = Some body"
    by (simp add: arg_def)
qed

theorem tag_lookup_defined_witness:
  \<open>exec regex (js ''<blockquote><p>[!TIP] x</p></blockquote>'')
     = Some (js ''<blockquote><p>[!TIP] x</p></blockquote>'',
             [Some (js ''<blockquote><p>[!TIP] x</p></blockquote>''),
              Some (js ''<blockquote><p>[!''), Some (js ''TIP''), Some (js '' x'')])
   \<and> (\<exists>k alert body.
         arg [Some (js ''<blockquote><p>[!TIP] x</p></blockquote>''),
              Some (js ''<blockquote><p>[!''), Some (js ''TIP''), Some (js '' x'')] 2 = Some k
         \<and> map_of alertConfig k = Some alert
         \<and> arg [Some (js ''<blockquote><p>[!TIP] x</p></blockquote>''),
              Some (js ''<blockquote><p>[!''), Some (js ''TIP''), Some (js '' x'')] 3 = Some body)\<close>
proof -
  have h: \<open>exec regex (js ''<blockquote><p>[!TIP] x</p></blockquote>'')
     = Some (js ''<blockquote><p>[!TIP] x</p></blockquote>'',
             [Some (js ''<blockquote><p>[!TIP] x</p></blockquote>''),
              Some (js ''<blockquote><p>[!''), Some (js ''TIP''), Some (js '' x'')])\<close>
    by (simp add: exec_regex scan_simps)
  show ?thesis
    using h tag_lookup_defined [of "[]" "js ''<blockquote><p>[!TIP] x</p></blockquote>''"
        "js ''<blockquote><p>[!TIP] x</p></blockquote>''"
        "[Some (js ''<blockquote><p>[!TIP] x</p></blockquote>''),
              Some (js ''<blockquote><p>[!''), Some (js ''TIP''), Some (js '' x'')]"]
    by blast
qed

end
